theory Spec2Isabelle
  imports Main
begin

section \<open>The fetch orchestrator (dataservice.py, class SouthDataService)\<close>

text \<open>
  A query key is the pair \<open>(sid, ymob)\<close>, a token is the pair \<open>(code, t)\<close> that the
  captcha service hands out, and a request is what \<open>_fetch0\<close> embeds in its URL:
  \<open>(sid, ymob, code, t)\<close>.
\<close>

type_synonym query = "string \<times> string"
type_synonym token = "string \<times> string"
type_synonym request = "string \<times> string \<times> string \<times> string"

text \<open>
  The parameter \<open>query_set\<close> of \<open>_fetch\<close> is any Python iterable. The query suppliers
  of the repository hand out two kinds: \<open>LocalQuerySupplier\<close> builds tuples, which
  every \<open>for\<close> loop iterates from their first item, and
  \<open>DefaultBruteForceQuerySupplier._get_query_set_for\<close> builds a generator expression, a
  one-shot object whose items are gone once a loop has taken them. A generator is an
  object of the store: \<open>Generator g\<close> names it, and the state maps \<open>g\<close> to the items it
  has not yielded yet.
\<close>

datatype query_set = Sequence "query list" | Generator nat

text \<open>
  The exceptions of the module. \<open>KnownException\<close> and \<open>UnknownResponseException\<close> are
  declared as subclasses of \<open>BaseException\<close>; \<open>RuntimeError\<close>, \<open>KeyError\<close>,
  \<open>ValueError\<close> and \<open>TypeError\<close> are Python's, subclasses of \<open>Exception\<close>.
\<close>

datatype exn =
    InvalidYMOBException
  | InvalidSIDException
  | InvalidCaptchaException
  | UnknownResponseException
  | RuntimeError
  | KeyError
  | ValueError
  | TypeError

fun is_Exception :: "exn \<Rightarrow> bool" where
  "is_Exception InvalidYMOBException = False"
| "is_Exception InvalidSIDException = False"
| "is_Exception InvalidCaptchaException = False"
| "is_Exception UnknownResponseException = False"
| "is_Exception RuntimeError = True"
| "is_Exception KeyError = True"
| "is_Exception ValueError = True"
| "is_Exception TypeError = True"

text \<open>
  What \<open>requests.get(...).json()\<close> does: it raises (a transport failure, or a body that
  is not JSON), or it returns the decoded body. Of the body the code reads
  \<open>json_body['code']\<close>, absent (\<open>None\<close>) when the key is missing, and hands the whole
  body to \<open>_parse_json\<close>.
\<close>

record 'a json_body =
  code :: "int option"
  args :: 'a

datatype 'a reply = RequestFailed | Body "'a json_body"

datatype 'r log_entry =
    LogTrying request
  | LogAdded 'r
  | LogInvalidYMOB string string
  | LogInvalidSID string
  | LogInvalidCaptcha token
  | LogReAdding string string
  | LogErrorFetchingOrAdding
  | LogErrorOccurredFetching request
  | LogNoValidYMOB "string option"
  | LogErrorExecuting
  | LogStarting
  | LogStarted
  | LogAlreadyStarted

text \<open>
  The state of one data service and of what it talks to: its own fields
  (\<open>_running\<close>, \<open>_results\<close>, \<open>_futures\<close>), the work queue of its
  \<open>ThreadPoolExecutor\<close>, the token buffer of its captcha service, the generator objects,
  every call made to the remote so far with its reply, and the log.
\<close>

record ('a, 'r) service =
  running :: bool
  results :: "'r list"
  futures :: "query_set list"
  work_queue :: "query_set list"
  pool :: "token list"
  generators :: "nat \<Rightarrow> query list"
  calls :: "(request \<times> 'a reply) list"
  log :: "'r log_entry list"

text \<open>
  The remote is any deterministic server: its reply depends on the requests it has
  received before and on the request itself.
\<close>

type_synonym 'a remote = "request list \<Rightarrow> request \<Rightarrow> 'a reply"

type_synonym ('a, 'r) parser = "'a json_body \<Rightarrow> string \<Rightarrow> exn + 'r"

definition add_result :: "'r \<Rightarrow> ('a, 'r) service \<Rightarrow> ('a, 'r) service" where
  "add_result result st = st\<lparr>results := results st @ [result]\<rparr>"

definition logger :: "'r log_entry \<Rightarrow> ('a, 'r) service \<Rightarrow> ('a, 'r) service" where
  "logger e st = st\<lparr>log := log st @ [e]\<rparr>"

text \<open>
  \<open>get_captcha_result\<close> is \<open>Queue.get\<close>: it takes the oldest token of the buffer, and
  blocks while the buffer is empty (\<open>None\<close>: the call has not returned).
\<close>

definition get_captcha_result :: "('a, 'r) service \<Rightarrow> (token \<times> ('a, 'r) service) option" where
  "get_captcha_result st =
     (case pool st of [] \<Rightarrow> None | tok # rest \<Rightarrow> Some (tok, st\<lparr>pool := rest\<rparr>))"

text \<open>\<open>submit\<close> followed by \<open>self._futures.append(future)\<close>.\<close>

definition submit :: "query_set \<Rightarrow> ('a, 'r) service \<Rightarrow> ('a, 'r) service" where
  "submit qs st = st\<lparr>work_queue := work_queue st @ [qs], futures := futures st @ [qs]\<rparr>"

text \<open>\<open>SouthDataService._fetch0\<close>: one call to the remote and the classification of its reply.\<close>

definition fetch0 ::
  "'a remote \<Rightarrow> ('a, 'r) parser \<Rightarrow> string \<Rightarrow> string \<Rightarrow> string \<Rightarrow> string \<Rightarrow>
   ('a, 'r) service \<Rightarrow> (exn + 'r) \<times> ('a, 'r) service" where
  "fetch0 remote parse_json sid ymob cd t st =
     (let rq = (sid, ymob, cd, t);
          rp = remote (map fst (calls st)) rq;
          st1 = st\<lparr>calls := calls st @ [(rq, rp)]\<rparr>
      in case rp of
           RequestFailed \<Rightarrow> (Inl RuntimeError, logger (LogErrorOccurredFetching rq) st1)
         | Body json_body \<Rightarrow>
             (case code json_body of
                None \<Rightarrow> (Inl KeyError, st1)
              | Some status \<Rightarrow>
                  if status = - 4 then (Inl InvalidYMOBException, st1)
                  else if status = 1 then (parse_json json_body ymob, st1)
                  else if status = - 2 then (Inl InvalidCaptchaException, st1)
                  else if status = - 3 then (Inl InvalidSIDException, st1)
                  else (Inl UnknownResponseException, st1)))"

text \<open>
  How a task ends. The first five are the \<open>return\<close> statements of \<open>_fetch\<close> and the end
  of its body; \<open>Raised\<close> is an exception that leaves \<open>_fetch\<close>; \<open>Blocked\<close> is a task
  waiting in \<open>Queue.get\<close> on an empty buffer.
\<close>

datatype task_end =
    NotRunning
  | Added
  | InvalidSID
  | ReAdded
  | NoValidYMOB
  | Raised exn
  | Blocked

text \<open>
  What one pass through the body of \<open>while not skip\<close> decides: a \<open>return\<close> or an
  exception that leaves \<open>_fetch\<close> (\<open>Return\<close>), \<open>skip = True\<close> (\<open>SetSkip\<close>), or another
  pass with \<open>captcha_valid\<close> as given (\<open>Continue\<close>).
\<close>

datatype handled = Return task_end | SetSkip | Continue bool

text \<open>
  The \<open>except\<close> clauses of the loop, tried in the order of the source. The last one,
  \<open>except Exception\<close>, catches the subclasses of \<open>Exception\<close> only; an exception that
  no clause catches leaves \<open>_fetch\<close>.
\<close>

definition except_clauses ::
  "query_set \<Rightarrow> string \<Rightarrow> string \<Rightarrow> token \<Rightarrow> exn \<Rightarrow> ('a, 'r) service \<Rightarrow>
   handled \<times> ('a, 'r) service" where
  "except_clauses query_set sid ymob tok e st =
     (if e = InvalidYMOBException then (SetSkip, logger (LogInvalidYMOB sid ymob) st)
      else if e = InvalidSIDException then (Return InvalidSID, logger (LogInvalidSID sid) st)
      else if e = InvalidCaptchaException then (Continue False, logger (LogInvalidCaptcha tok) st)
      else if e = RuntimeError
      then (Return ReAdded, submit query_set (logger (LogReAdding sid ymob) st))
      else if is_Exception e then (Continue True, logger LogErrorFetchingOrAdding st)
      else (Return (Raised e), st))"

text \<open>
  The body of the loop: the \<open>try\<close> block and its \<open>except\<close> clauses. It returns the
  token then held in \<open>code, t\<close> as well. A task that finds the buffer empty when it needs
  a new token is \<open>Blocked\<close>.
\<close>

definition attempt ::
  "'a remote \<Rightarrow> ('a, 'r) parser \<Rightarrow> query_set \<Rightarrow> string \<Rightarrow> string \<Rightarrow> token \<Rightarrow> bool \<Rightarrow>
   ('a, 'r) service \<Rightarrow> handled \<times> token \<times> ('a, 'r) service" where
  "attempt remote parse_json query_set sid ymob tok captcha_valid st =
     (case (if \<not> captcha_valid then get_captcha_result st else Some (tok, st)) of
        None \<Rightarrow> (Return Blocked, tok, st)
      | Some ((cd, t), st1) \<Rightarrow>
          (case fetch0 remote parse_json sid ymob cd t (logger (LogTrying (sid, ymob, cd, t)) st1) of
             (Inr result_map, st2) \<Rightarrow>
               (Return Added, (cd, t), logger (LogAdded result_map) (add_result result_map st2))
           | (Inl e, st2) \<Rightarrow>
               (case except_clauses query_set sid ymob (cd, t) e st2 of
                  (h, st3) \<Rightarrow> (h, (cd, t), st3))))"

datatype while_exit = Skip token | End task_end

text \<open>
  The loop \<open>while not skip\<close> for one query key. Each pass makes one call to the remote
  and nothing bounds their number, so the model counts the passes down from \<open>fuel\<close>. It
  returns how the loop was left, \<open>None\<close> when it was still running as the fuel ran out,
  and the state reached: with \<open>skip = True\<close> (\<open>Skip\<close>, with the token then held), or
  with the end of the task (\<open>End\<close>).
\<close>

fun fetch_while ::
  "nat \<Rightarrow> 'a remote \<Rightarrow> ('a, 'r) parser \<Rightarrow> query_set \<Rightarrow> string \<Rightarrow> string \<Rightarrow> token \<Rightarrow> bool \<Rightarrow>
   ('a, 'r) service \<Rightarrow> while_exit option \<times> ('a, 'r) service" where
  "fetch_while 0 remote parse_json query_set sid ymob tok captcha_valid st = (None, st)"
| "fetch_while (Suc fuel) remote parse_json query_set sid ymob tok captcha_valid st =
     (case attempt remote parse_json query_set sid ymob tok captcha_valid st of
        (Return e, tok', st') \<Rightarrow> (Some (End e), st')
      | (SetSkip, tok', st') \<Rightarrow> (Some (Skip tok'), st')
      | (Continue captcha_valid', tok', st') \<Rightarrow>
          fetch_while fuel remote parse_json query_set sid ymob tok' captcha_valid' st')"

text \<open>
  Taking the next item of the iterable: a tuple is untouched, a generator object has
  yielded the item and keeps the rest.
\<close>

definition advance :: "query_set \<Rightarrow> query list \<Rightarrow> ('a, 'r) service \<Rightarrow> ('a, 'r) service" where
  "advance query_set rest st =
     (case query_set of
        Sequence qs \<Rightarrow> st
      | Generator g \<Rightarrow> st\<lparr>generators := (generators st)(g := rest)\<rparr>)"

definition items_of :: "query_set \<Rightarrow> ('a, 'r) service \<Rightarrow> query list" where
  "items_of query_set st =
     (case query_set of Sequence qs \<Rightarrow> qs | Generator g \<Rightarrow> generators st g)"

text \<open>
  The loop \<open>for i, (sid, ymob) in enumerate(query_set)\<close>, over the items the iterable
  still has to yield, and the statement after it. \<open>q_sid\<close> is the variable of that name
  (\<open>not q_sid\<close> holds of \<open>None\<close> and of the empty string). \<open>fuel\<close> bounds the passes of
  the inner loop for each key; the result is how the task ended, \<open>None\<close> when it was
  still running as the fuel ran out, and the state reached.
\<close>

fun fetch_for ::
  "nat \<Rightarrow> 'a remote \<Rightarrow> ('a, 'r) parser \<Rightarrow> query_set \<Rightarrow> query list \<Rightarrow> string option \<Rightarrow> token \<Rightarrow>
   ('a, 'r) service \<Rightarrow> task_end option \<times> ('a, 'r) service" where
  "fetch_for fuel remote parse_json query_set [] q_sid tok st =
     (Some NoValidYMOB, logger (LogNoValidYMOB q_sid) st)"
| "fetch_for fuel remote parse_json query_set ((sid, ymob) # rest) q_sid tok st =
     (let q_sid' = (if q_sid = None \<or> q_sid = Some [] then Some sid else q_sid)
      in case fetch_while fuel remote parse_json query_set sid ymob tok True
                (advance query_set rest st) of
           (None, st1) \<Rightarrow> (None, st1)
         | (Some (Skip tok'), st1) \<Rightarrow>
             fetch_for fuel remote parse_json query_set rest q_sid' tok' st1
         | (Some (End e), st1) \<Rightarrow> (Some e, st1))"

text \<open>\<open>SouthDataService._fetch\<close>, the body of one task.\<close>

definition fetch ::
  "nat \<Rightarrow> 'a remote \<Rightarrow> ('a, 'r) parser \<Rightarrow> query_set \<Rightarrow> ('a, 'r) service \<Rightarrow>
   task_end option \<times> ('a, 'r) service" where
  "fetch fuel remote parse_json query_set st =
     (if \<not> running st then (Some NotRunning, st)
      else case get_captcha_result st of
             None \<Rightarrow> (Some Blocked, st)
           | Some (tok, st1) \<Rightarrow>
               fetch_for fuel remote parse_json query_set (items_of query_set st1) None tok st1)"

text \<open>
  \<open>utils.MultithreadingHelper.wrapped\<close>, the decorator of \<open>_fetch\<close>: it catches and logs
  the subclasses of \<open>Exception\<close> and lets every other exception through, to the
  executor, which stores it in the future.
\<close>

definition wrapped ::
  "task_end option \<times> ('a, 'r) service \<Rightarrow> task_end option \<times> ('a, 'r) service" where
  "wrapped r =
     (case r of
        (Some (Raised e), st) \<Rightarrow>
          if is_Exception e then (Some (Raised e), logger LogErrorExecuting st)
          else (Some (Raised e), st)
      | other \<Rightarrow> other)"

text \<open>
  \<open>AbstractDataService.start\<close>, with the captcha service's \<open>start\<close> left out (it starts
  the producers of the token buffer).
\<close>

definition start :: "query_set list \<Rightarrow> ('a, 'r) service \<Rightarrow> ('a, 'r) service" where
  "start query_sets st =
     (if \<not> running st
      then logger LogStarted
             (foldl (\<lambda>s qs. submit qs s) ((logger LogStarting st)\<lparr>running := True\<rparr>) query_sets)
      else logger LogAlreadyStarted st)"

text \<open>
  One worker of the executor running the queued tasks one after the other, oldest
  first, until the queue is empty: \<open>tasks\<close> bounds how many it runs, and \<open>None\<close> says
  that a task was still running, or the queue still filled, when a bound was reached.
  The list returned holds how each task ended.
\<close>

fun run_tasks ::
  "nat \<Rightarrow> nat \<Rightarrow> 'a remote \<Rightarrow> ('a, 'r) parser \<Rightarrow> ('a, 'r) service \<Rightarrow>
   (task_end list \<times> ('a, 'r) service) option" where
  "run_tasks 0 fuel remote parse_json st =
     (if work_queue st = [] then Some ([], st) else None)"
| "run_tasks (Suc tasks) fuel remote parse_json st =
     (case work_queue st of
        [] \<Rightarrow> Some ([], st)
      | query_set # rest \<Rightarrow>
          (case wrapped (fetch fuel remote parse_json query_set (st\<lparr>work_queue := rest\<rparr>)) of
             (None, st1) \<Rightarrow> None
           | (Some e, st1) \<Rightarrow>
               (case run_tasks tasks fuel remote parse_json st1 of
                  None \<Rightarrow> None
                | Some (es, st2) \<Rightarrow> Some (e # es, st2))))"

subsection \<open>Notions the statements about the orchestrator use\<close>

definition classify :: "('a, 'r) parser \<Rightarrow> string \<Rightarrow> 'a reply \<Rightarrow> exn + 'r" where
  "classify parse_json ymob rp =
     (case rp of
        RequestFailed \<Rightarrow> Inl RuntimeError
      | Body b \<Rightarrow>
          (case code b of
             None \<Rightarrow> Inl KeyError
           | Some status \<Rightarrow>
               if status = - 4 then Inl InvalidYMOBException
               else if status = 1 then parse_json b ymob
               else if status = - 2 then Inl InvalidCaptchaException
               else if status = - 3 then Inl InvalidSIDException
               else Inl UnknownResponseException))"

definition token_taken :: "token \<Rightarrow> bool \<Rightarrow> ('a, 'r) service \<Rightarrow> token \<times> ('a, 'r) service" where
  "token_taken tok v st = (if v then (tok, st) else (hd (pool st), st\<lparr>pool := tl (pool st)\<rparr>))"

definition decision :: "exn + 'r \<Rightarrow> handled" where
  "decision k =
     (case k of
        Inr r \<Rightarrow> Return Added
      | Inl e \<Rightarrow>
          if e = InvalidYMOBException then SetSkip
          else if e = InvalidSIDException then Return InvalidSID
          else if e = InvalidCaptchaException then Continue False
          else if e = RuntimeError then Return ReAdded
          else if is_Exception e then Continue True
          else Return (Raised e))"

definition outcome :: "('a, 'r) parser \<Rightarrow> request \<times> 'a reply \<Rightarrow> exn + 'r" where
  "outcome parse_json c = (case c of ((sid, ymob, cd, t), rp) \<Rightarrow> classify parse_json ymob rp)"

definition qkey :: "request \<times> 'a reply \<Rightarrow> query" where
  "qkey c = (case c of ((sid, ymob, cd, t), rp) \<Rightarrow> (sid, ymob))"

definition added :: "exn + 'r \<Rightarrow> 'r list" where
  "added k = (case k of Inr r \<Rightarrow> [r] | Inl e \<Rightarrow> [])"

definition readded :: "query_set \<Rightarrow> exn + 'r \<Rightarrow> query_set list" where
  "readded qs k = (if k = Inl RuntimeError then [qs] else [])"

definition retries :: "exn + 'r \<Rightarrow> bool" where
  "retries k = (case decision k of Continue v \<Rightarrow> True | other \<Rightarrow> False)"

definition returns :: "exn + 'r \<Rightarrow> bool" where
  "returns k = (case decision k of Return e \<Rightarrow> True | other \<Rightarrow> False)"

fun attempted_in_order :: "'a list \<Rightarrow> 'a list \<Rightarrow> bool" where
  "attempted_in_order [] items = True"
| "attempted_in_order (a # tr) [] = False"
| "attempted_in_order (a # tr) (k # items) =
     (a = k \<and> (attempted_in_order tr (k # items) \<or> attempted_in_order tr items))"

definition succeeded :: "('a, 'r) parser \<Rightarrow> request \<times> 'a reply \<Rightarrow> bool" where
  "succeeded parse_json c = (case outcome parse_json c of Inr r \<Rightarrow> True | Inl e \<Rightarrow> False)"

definition unrecognized :: "'a reply \<Rightarrow> bool" where
  "unrecognized rp =
     (case rp of
        RequestFailed \<Rightarrow> False
      | Body b \<Rightarrow>
          (case code b of
             None \<Rightarrow> False
           | Some status \<Rightarrow> status \<noteq> - 4 \<and> status \<noteq> 1 \<and> status \<noteq> - 2 \<and> status \<noteq> - 3))"

definition invalid_token :: "'a reply \<Rightarrow> bool" where
  "invalid_token rp = (case rp of RequestFailed \<Rightarrow> False | Body b \<Rightarrow> code b = Some (- 2))"

definition request_of :: "string \<Rightarrow> string \<Rightarrow> token \<Rightarrow> request" where
  "request_of sid ymob tok = (sid, ymob, fst tok, snd tok)"

text \<open>
  The token a call has sent, and whether its reply made \<open>_fetch\<close> reject that token
  (the clause \<open>except InvalidCaptchaException\<close>).
\<close>

definition token_of :: "request \<times> 'a reply \<Rightarrow> token" where
  "token_of c = (case c of ((sid, ymob, cd, t), rp) \<Rightarrow> (cd, t))"

definition token_rejected :: "('a, 'r) parser \<Rightarrow> request \<times> 'a reply \<Rightarrow> bool" where
  "token_rejected parse_json c = (outcome parse_json c = Inl InvalidCaptchaException)"

text \<open>
  The tokens a task can still send after the calls \<open>cs\<close>, when it started with the
  tokens \<open>toks\<close>, the one it holds first: every call sends the first of them, and a
  rejected token is dropped. \<open>None\<close> when a call sends another token.
\<close>

fun tokens_after ::
  "('a, 'r) parser \<Rightarrow> (request \<times> 'a reply) list \<Rightarrow> token list \<Rightarrow> token list option" where
  "tokens_after parse_json [] toks = Some toks"
| "tokens_after parse_json (c # cs) [] = None"
| "tokens_after parse_json (c # cs) (tok # toks) =
     (if token_of c = tok
      then tokens_after parse_json cs (if token_rejected parse_json c then toks else tok # toks)
      else None)"

text \<open>The call after a rejected token is for the same key.\<close>

fun same_key_retried :: "('a, 'r) parser \<Rightarrow> (request \<times> 'a reply) list \<Rightarrow> bool" where
  "same_key_retried parse_json [] = True"
| "same_key_retried parse_json [c] = True"
| "same_key_retried parse_json (c # d # cs) =
     ((token_rejected parse_json c \<longrightarrow> qkey d = qkey c) \<and> same_key_retried parse_json (d # cs))"

subsection \<open>Example inputs\<close>

definition ex_parse :: "(unit, string) parser" where
  "ex_parse b ymob = Inr ymob"

definition ex_keys :: "query list" where
  "ex_keys = [(''0000000001'', ''9903''), (''0000000001'', ''9906''), (''0000000001'', ''9901'')]"

definition ex_service :: "token list \<Rightarrow> (unit, string) service" where
  "ex_service tokens =
     \<lparr>running = True, results = [], futures = [], work_queue = [], pool = tokens,
      generators = (\<lambda>g. if g = 0 then ex_keys else if g = 1 then take 1 ex_keys else []),
      calls = [], log = []\<rparr>"

definition ex_remote_third :: "unit remote" where
  "ex_remote_third h rq =
     (case rq of (sid, ymob, cd, t) \<Rightarrow>
        if ymob = ''9901'' then Body \<lparr>code = Some 1, args = ()\<rparr>
        else Body \<lparr>code = Some (- 4), args = ()\<rparr>)"

definition ex_remote_unknown :: "unit remote" where
  "ex_remote_unknown h rq = Body \<lparr>code = Some 0, args = ()\<rparr>"

definition ex_remote_token :: "unit remote" where
  "ex_remote_token h rq =
     (case rq of (sid, ymob, cd, t) \<Rightarrow>
        if (cd, t) = (''ef56'', ''t2'') then Body \<lparr>code = Some 1, args = ()\<rparr>
        else Body \<lparr>code = Some (- 2), args = ()\<rparr>)"

text \<open>
  A remote that rejects the first token and answers invalid ymob for the first key
  otherwise, and success for the second key.
\<close>

definition ex_remote_second :: "unit remote" where
  "ex_remote_second h rq =
     (case rq of (sid, ymob, cd, t) \<Rightarrow>
        if (cd, t) = (''ab12'', ''t0'') then Body \<lparr>code = Some (- 2), args = ()\<rparr>
        else if ymob = ''9906'' then Body \<lparr>code = Some 1, args = ()\<rparr>
        else Body \<lparr>code = Some (- 4), args = ()\<rparr>)"

text \<open>More example inputs: a service not started yet, and two remotes whose first call fails.\<close>

definition ex_stopped :: "token list \<Rightarrow> (unit, string) service" where
  "ex_stopped tokens = (ex_service tokens)\<lparr>running := False\<rparr>"

definition ex_remote_transient :: "unit remote" where
  "ex_remote_transient h rq =
     (case rq of (sid, ymob, cd, t) \<Rightarrow>
        if h = [] then RequestFailed
        else if ymob = ''9903'' then Body \<lparr>code = Some 1, args = ()\<rparr>
        else Body \<lparr>code = Some (- 4), args = ()\<rparr>)"

definition ex_remote_flaky :: "unit remote" where
  "ex_remote_flaky h rq = (if h = [] then RequestFailed else Body \<lparr>code = Some 1, args = ()\<rparr>)"

text \<open>What a run of the executor left: how the tasks ended, and the final state.\<close>

definition ends_of :: "(task_end list \<times> ('a, 'r) service) option \<Rightarrow> task_end list option" where
  "ends_of r = map_option fst r"

definition final :: "(task_end list \<times> ('a, 'r) service) option \<Rightarrow> ('a, 'r) service option" where
  "final r = map_option snd r"

section \<open>The token buffer (captchaservice.py)\<close>

text \<open>
  Python's \<open>queue.Queue(maxsize)\<close>, as far as the captcha services use it: \<open>put\<close>
  blocks (\<open>None\<close>) while \<open>maxsize > 0\<close> and the queue holds \<open>maxsize\<close> items, and a
  \<open>maxsize\<close> of zero or less means no bound; \<open>get\<close> blocks on an empty queue.
\<close>

record 'a queue =
  maxsize :: int
  queue :: "'a list"

definition Queue :: "int \<Rightarrow> 'a queue" where
  "Queue m = \<lparr>maxsize = m, queue = []\<rparr>"

definition qsize :: "'a queue \<Rightarrow> nat" where
  "qsize q = length (queue q)"

definition put :: "'a \<Rightarrow> 'a queue \<Rightarrow> 'a queue option" where
  "put item q =
     (if maxsize q > 0 \<and> int (qsize q) \<ge> maxsize q then None
      else Some (q\<lparr>queue := queue q @ [item]\<rparr>))"

definition get :: "'a queue \<Rightarrow> ('a \<times> 'a queue) option" where
  "get q = (case queue q of [] \<Rightarrow> None | item # rest \<Rightarrow> Some (item, q\<lparr>queue := rest\<rparr>))"

text \<open>The fields \<open>AbstractCaptchaService.__init__\<close> sets (the logger and the threads left out).\<close>

record captcha_service =
  worker_count :: nat
  max_pool_size :: int
  captcha_result_pool :: "token queue"
  captcha_running :: bool

definition AbstractCaptchaService_init :: "nat \<Rightarrow> int \<Rightarrow> captcha_service" where
  "AbstractCaptchaService_init wc msize =
     \<lparr>worker_count = wc, max_pool_size = msize, captcha_result_pool = Queue msize,
      captcha_running = False\<rparr>"

text \<open>
  Both concrete services take \<open>maxsize\<close> and call \<open>super().__init__(worker_count)\<close>,
  which leaves the parameter of the base class at its default, 40.
\<close>

definition SouthCaptchaService_init :: "nat \<Rightarrow> int \<Rightarrow> captcha_service" where
  "SouthCaptchaService_init wc msize = AbstractCaptchaService_init wc 40"

definition SouthEnrollmentCaptchaService_init :: "nat \<Rightarrow> int \<Rightarrow> captcha_service" where
  "SouthEnrollmentCaptchaService_init wc msize = AbstractCaptchaService_init wc 40"

text \<open>
  \<open>start\<close>, and one pass of the loop of \<open>_add_captcha_to_pool\<close> for a worker whose fetch
  and solve produced \<open>tok\<close>: the loop ends when the service is not running, the worker
  waits in \<open>put\<close> on a full queue, or the token is put. \<open>producers\<close> runs such passes
  one after the other; a waiting worker leaves the buffer as it is.
\<close>

definition captcha_start :: "captcha_service \<Rightarrow> captcha_service" where
  "captcha_start s = (if \<not> captcha_running s then s\<lparr>captcha_running := True\<rparr> else s)"

datatype pass = Stopped | Waiting | Inserted captcha_service

definition add_captcha_to_pool :: "token \<Rightarrow> captcha_service \<Rightarrow> pass" where
  "add_captcha_to_pool tok s =
     (if \<not> captcha_running s then Stopped
      else case put tok (captcha_result_pool s) of
             None \<Rightarrow> Waiting
           | Some q \<Rightarrow> Inserted (s\<lparr>captcha_result_pool := q\<rparr>))"

fun producers :: "token list \<Rightarrow> captcha_service \<Rightarrow> captcha_service" where
  "producers [] s = s"
| "producers (tok # toks) s =
     (case add_captcha_to_pool tok s of
        Inserted s' \<Rightarrow> producers toks s'
      | other \<Rightarrow> producers toks s)"

definition ex_tokens :: "token list" where
  "ex_tokens = [(''a'', ''1''), (''b'', ''2''), (''c'', ''3''), (''d'', ''4''), (''e'', ''5''),
     (''f'', ''6''), (''g'', ''7'')]"

section \<open>The result sink as objects of a store (dataservice.py, class AbstractDataService)\<close>

text \<open>
  For what a caller can do to the list \<open>get_result_list\<close> returns, results are objects
  with an identity. An object of the store is a list of references or a dictionary from
  field names to values; the values of a record (strings, numbers, \<open>None\<close>) are
  immutable in Python and stay plain values. A reference is a position in the store, and
  a new object is put at its end.
\<close>

datatype 'v object = ListObj "nat list" | DictObj "(string \<times> 'v) list"

record 'v sink =
  heap :: "'v object list"
  results_ref :: nat

definition lookup :: "'v sink \<Rightarrow> nat \<Rightarrow> 'v object option" where
  "lookup s a = (if a < length (heap s) then Some (heap s ! a) else None)"

definition alloc :: "'v object \<Rightarrow> 'v sink \<Rightarrow> nat \<times> 'v sink" where
  "alloc ob s = (length (heap s), s\<lparr>heap := heap s @ [ob]\<rparr>)"

text \<open>
  \<open>_add_result\<close>: \<open>self._results.append(result)\<close>, with \<open>result\<close> a reference to a
  record. \<open>None\<close> where \<open>self._results\<close> is not a list, which \<open>__init__\<close> excludes.
\<close>

definition sink_add_result :: "nat \<Rightarrow> 'v sink \<Rightarrow> 'v sink option" where
  "sink_add_result result s =
     (case lookup s (results_ref s) of
        Some (ListObj xs) \<Rightarrow> Some (s\<lparr>heap := (heap s)[results_ref s := ListObj (xs @ [result])]\<rparr>)
      | other \<Rightarrow> None)"

text \<open>
  \<open>copy.deepcopy\<close> of a list of records, with its memo: each record met for the first
  time is copied into a new dictionary, a record met again gives the copy made before.
  The values are immutable, and \<open>deepcopy\<close> returns such objects themselves. \<open>None\<close>
  where an element is not a record of the store.
\<close>

fun deepcopy_items ::
  "nat list \<Rightarrow> (nat \<Rightarrow> nat option) \<Rightarrow> 'v sink \<Rightarrow> (nat list \<times> (nat \<Rightarrow> nat option) \<times> 'v sink) option" where
  "deepcopy_items [] memo s = Some ([], memo, s)"
| "deepcopy_items (x # xs) memo s =
     (case memo x of
        Some y \<Rightarrow>
          (case deepcopy_items xs memo s of
             None \<Rightarrow> None
           | Some (ys, memo', s') \<Rightarrow> Some (y # ys, memo', s'))
      | None \<Rightarrow>
          (case lookup s x of
             Some (DictObj d) \<Rightarrow>
               (case alloc (DictObj d) s of
                  (y, s1) \<Rightarrow>
                    (case deepcopy_items xs (memo(x \<mapsto> y)) s1 of
                       None \<Rightarrow> None
                     | Some (ys, memo', s') \<Rightarrow> Some (y # ys, memo', s')))
           | other \<Rightarrow> None))"

definition deepcopy :: "nat \<Rightarrow> 'v sink \<Rightarrow> (nat \<times> 'v sink) option" where
  "deepcopy l s =
     (case lookup s l of
        Some (ListObj xs) \<Rightarrow>
          (case alloc (ListObj []) s of
             (y, s1) \<Rightarrow>
               (case deepcopy_items xs (Map.empty(l \<mapsto> y)) s1 of
                  None \<Rightarrow> None
                | Some (ys, memo', s') \<Rightarrow> Some (y, s'\<lparr>heap := (heap s')[y := ListObj ys]\<rparr>)))
      | other \<Rightarrow> None)"

definition get_result_list :: "bool \<Rightarrow> 'v sink \<Rightarrow> (nat \<times> 'v sink) option" where
  "get_result_list copy s = (if copy then deepcopy (results_ref s) s else Some (results_ref s, s))"

text \<open>
  What a list of the store holds: its references, each with the object it refers to.
\<close>

definition view :: "'v sink \<Rightarrow> nat \<Rightarrow> (nat \<times> 'v object option) list option" where
  "view s l =
     (case lookup s l of
        Some (ListObj xs) \<Rightarrow> Some (map (\<lambda>x. (x, lookup s x)) xs)
      | other \<Rightarrow> None)"

definition records_of :: "'v sink \<Rightarrow> nat \<Rightarrow> 'v object option list" where
  "records_of s l = (case view s l of None \<Rightarrow> [] | Some v \<Rightarrow> map snd v)"

definition refs_of :: "'v sink \<Rightarrow> nat \<Rightarrow> nat list" where
  "refs_of s l = (case view s l of None \<Rightarrow> [] | Some v \<Rightarrow> map fst v)"

text \<open>
  The sink as the service keeps it: \<open>_results\<close> is a list of the store, and its elements
  are records of the store.
\<close>

definition is_record :: "'v sink \<Rightarrow> nat \<Rightarrow> bool" where
  "is_record s x = (case lookup s x of Some (DictObj d) \<Rightarrow> True | other \<Rightarrow> False)"

definition sink_ok :: "'v sink \<Rightarrow> bool" where
  "sink_ok s =
     (case lookup s (results_ref s) of
        Some (ListObj xs) \<Rightarrow> list_all (is_record s) xs
      | other \<Rightarrow> False)"

text \<open>What a caller does to an object it holds: it replaces the object's state.\<close>

definition mutate :: "nat \<Rightarrow> 'v object \<Rightarrow> 'v sink \<Rightarrow> 'v sink" where
  "mutate a ob s = s\<lparr>heap := (heap s)[a := ob]\<rparr>"

text \<open>An example sink: two records, the first of them twice in the list.\<close>

definition ex_sink :: "int sink" where
  "ex_sink = \<lparr>heap = [ListObj [1, 2, 1], DictObj [(''sid'', 1), (''sum'', 600)],
                      DictObj [(''sid'', 2), (''sum'', 550)]], results_ref = 0\<rparr>"

section \<open>The challenge solver (southocr/southocr.py)\<close>

text \<open>
  A PIL image, as far as the solver uses it: \<open>img.size\<close> (width, height), the pixel
  access object \<open>img.load()\<close>, read as \<open>px[x, y]\<close>, and the raw buffer \<open>img.tobytes()\<close>.
\<close>

record image =
  img_size :: "nat \<times> nat"
  load :: "nat \<times> nat \<Rightarrow> nat"
  tobytes :: "nat list"

text \<open>
  The raw buffer of an image of mode \<open>1\<close>: every row is packed eight pixels to the
  byte, first pixel in the highest bit, a set bit for a pixel that is not 0, and the last
  byte of a row is filled up with zero bits.
\<close>

fun pack_bits :: "bool list \<Rightarrow> nat list" where
  "pack_bits [] = []"
| "pack_bits (b # bs) =
     foldl (\<lambda>acc bit. 2 * acc + (if bit then 1 else 0)) 0 (take 8 (b # bs @ replicate 7 False))
       # pack_bits (drop 8 (b # bs))"

definition bytes_of :: "nat \<Rightarrow> nat \<Rightarrow> (nat \<times> nat \<Rightarrow> nat) \<Rightarrow> nat list" where
  "bytes_of w h px = concat (map (\<lambda>y. pack_bits (map (\<lambda>x. px (x, y) \<noteq> 0) [0..<w])) [0..<h])"

text \<open>
  \<open>img.point(lambda x: 1 if x >= 160 else 0, mode='1')\<close>, applied to the grey levels
  \<open>img.convert('L')\<close> gives: a pixel is 0 (ink) below 160.
\<close>

definition binarize :: "image \<Rightarrow> image" where
  "binarize img =
     (let px = (\<lambda>p. if load img p \<ge> 160 then 1 else 0) in
      \<lparr>img_size = img_size img, load = px,
       tobytes = bytes_of (fst (img_size img)) (snd (img_size img)) px\<rparr>)"

text \<open>\<open>img.crop((left, upper, right, lower))\<close> for a box inside the image.\<close>

definition crop :: "image \<Rightarrow> nat \<times> nat \<times> nat \<times> nat \<Rightarrow> image" where
  "crop img box =
     (case box of (left, upper, right, lower) \<Rightarrow>
        (let px = (\<lambda>(x, y). load img (left + x, upper + y)) in
         \<lparr>img_size = (right - left, lower - upper), load = px,
          tobytes = bytes_of (right - left) (lower - upper) px\<rparr>))"

text \<open>
  The module's globals, filled once from the files of \<open>southocr/samples\<close>, which the
  sources do not hold: the files are a parameter, each with its name and its image, in
  the order \<open>os.walk\<close> yields them; \<open>sha1\<close> stands for \<open>hashlib.sha1(...).digest()\<close>.
  The label of a sample is the first character of its file name, \<open>fle[:1]\<close>.
\<close>

type_synonym sample = "string \<times> (nat \<times> nat \<Rightarrow> nat) \<times> (nat \<times> nat)"

definition samples_of :: "(string \<times> image) list \<Rightarrow> sample list" where
  "samples_of files = map (\<lambda>(fle, img). (take 1 fle, load img, img_size img)) files"

definition sample_hashmap_of ::
  "(nat list \<Rightarrow> 'd) \<Rightarrow> (string \<times> image) list \<Rightarrow> ('d \<Rightarrow> string option)" where
  "sample_hashmap_of sha1 files =
     foldl (\<lambda>m (fle, img). m(sha1 (tobytes img) \<mapsto> take 1 fle)) Map.empty files"

definition append_to_char_boxes_LR :: "(nat \<times> nat) list \<Rightarrow> nat \<Rightarrow> nat \<Rightarrow> (nat \<times> nat) list" where
  "append_to_char_boxes_LR lst left right =
     (if right - left > 8
      then (let mid = (left + right) div 2 in lst @ [(left, mid)] @ [(mid, right)])
      else lst @ [(left, right)])"

definition pixel_score :: "nat \<Rightarrow> nat \<Rightarrow> int" where
  "pixel_score cdxy sdxy = (if cdxy = sdxy then (if cdxy = 0 then 1 else 0) else - 1)"

text \<open>The two nested loops over \<open>x\<close> and \<open>y\<close> that add up \<open>score\<close>.\<close>

definition score_of :: "(nat \<times> nat \<Rightarrow> nat) \<Rightarrow> (nat \<times> nat \<Rightarrow> nat) \<Rightarrow> nat \<Rightarrow> nat \<Rightarrow> int" where
  "score_of cdata sdata cwidth cheight =
     (\<Sum>x\<leftarrow>[0..<cwidth]. \<Sum>y\<leftarrow>[0..<cheight]. pixel_score (cdata (x, y)) (sdata (x, y)))"

text \<open>Python's \<open>max\<close> of a list of integers that is not empty.\<close>

definition py_max :: "int list \<Rightarrow> int" where
  "py_max xs = foldl max (hd xs) (tl xs)"

text \<open>
  \<open>calculate_similarity\<close>. In the second branch the offsets are not used in the pixel
  reads of the source, so every position adds the same score to \<open>score_list\<close>.
\<close>

definition calculate_similarity ::
  "(nat \<times> nat \<Rightarrow> nat) \<Rightarrow> nat \<times> nat \<Rightarrow> (nat \<times> nat \<Rightarrow> nat) \<Rightarrow> nat \<times> nat \<Rightarrow> int" where
  "calculate_similarity cdata csize sdata ssize =
     (case (csize, ssize) of ((cwidth, cheight), (swidth, sheight)) \<Rightarrow>
        if csize = ssize then score_of cdata sdata cwidth cheight
        else if cwidth > swidth \<or> cheight > sheight then - 100
        else py_max (concat (map (\<lambda>xoffset. map (\<lambda>yoffset. score_of cdata sdata cwidth cheight)
                                   [0..<sheight - cheight + 1]) [0..<swidth - cwidth + 1])))"

text \<open>
  Python's \<open>max(score_list, key=lambda x: x[0])\<close>: the first item with the greatest
  score; \<open>ValueError\<close> on an empty list.
\<close>

fun max_from :: "int \<times> 'a \<Rightarrow> (int \<times> 'a) list \<Rightarrow> int \<times> 'a" where
  "max_from best [] = best"
| "max_from best (c # cs) = max_from (if fst c > fst best then c else best) cs"

definition max_by_score :: "(int \<times> 'a) list \<Rightarrow> exn + int \<times> 'a" where
  "max_by_score score_list =
     (case score_list of [] \<Rightarrow> Inl ValueError | c # cs \<Rightarrow> Inr (max_from c cs))"

definition score_list_of :: "sample list \<Rightarrow> image \<Rightarrow> (int \<times> string) list" where
  "score_list_of samples cimg =
     map (\<lambda>(char_name, sdata, ssize).
            (calculate_similarity (load cimg) (img_size cimg) sdata ssize, char_name)) samples"

definition visual_recognise_char_img :: "sample list \<Rightarrow> image \<Rightarrow> exn + string" where
  "visual_recognise_char_img samples cimg =
     (case max_by_score (score_list_of samples cimg) of
        Inl e \<Rightarrow> Inl e
      | Inr best \<Rightarrow> Inr (snd best))"

datatype stage = STAGE_SEARCHING_FOR_CHAR | STAGE_PROCESSING_CHAR

text \<open>
  One pass of the loop over the columns \<open>x\<close>. The state is \<open>stage\<close>, \<open>left\<close> and
  \<open>char_boxes_LR\<close> (\<open>right\<close> is written and read within one pass).
\<close>

definition column_step ::
  "(nat \<times> nat \<Rightarrow> nat) \<Rightarrow> nat \<Rightarrow> nat \<Rightarrow> stage \<times> nat \<times> (nat \<times> nat) list \<Rightarrow> nat \<Rightarrow>
   stage \<times> nat \<times> (nat \<times> nat) list" where
  "column_step px img_width img_height st x =
     (case st of (stage, left, char_boxes_LR) \<Rightarrow>
        (let empty_column = list_all (\<lambda>y. px (x, y) \<noteq> 0) [0..<img_height];
             starts = (\<not> empty_column \<and> stage = STAGE_SEARCHING_FOR_CHAR);
             stage1 = (if starts then STAGE_PROCESSING_CHAR else stage);
             left1 = (if starts then x else left)
         in if stage1 = STAGE_PROCESSING_CHAR
            then (if empty_column
                  then (STAGE_SEARCHING_FOR_CHAR, left1, append_to_char_boxes_LR char_boxes_LR left1 x)
                  else if x = img_width - 1
                  then (STAGE_SEARCHING_FOR_CHAR, left1,
                        append_to_char_boxes_LR char_boxes_LR left1 img_width)
                  else (stage1, left1, char_boxes_LR))
            else (stage1, left1, char_boxes_LR)))"

definition char_boxes_LR_of :: "image \<Rightarrow> (nat \<times> nat) list" where
  "char_boxes_LR_of img =
     (case img_size img of (img_width, img_height) \<Rightarrow>
        snd (snd (foldl (column_step (load img) img_width img_height)
                    (STAGE_SEARCHING_FOR_CHAR, 0, []) [0..<img_width])))"

text \<open>
  One pass of the loop over the rows \<open>y\<close> of one column box. \<open>stage\<close>, \<open>upper\<close> and
  \<open>char_boxes_UL\<close> go on from one column box to the next.
\<close>

definition row_step ::
  "(nat \<times> nat \<Rightarrow> nat) \<Rightarrow> nat \<Rightarrow> nat \<times> nat \<Rightarrow> stage \<times> nat \<times> (nat \<times> nat) list \<Rightarrow> nat \<Rightarrow>
   stage \<times> nat \<times> (nat \<times> nat) list" where
  "row_step px img_height box st y =
     (case (box, st) of ((left, right), (stage, upper, char_boxes_UL)) \<Rightarrow>
        (let empty_row = list_all (\<lambda>x. px (x, y) \<noteq> 0) [left..<right];
             starts = (\<not> empty_row \<and> stage = STAGE_SEARCHING_FOR_CHAR);
             stage1 = (if starts then STAGE_PROCESSING_CHAR else stage);
             upper1 = (if starts then y else upper)
         in if stage1 = STAGE_PROCESSING_CHAR
            then (if empty_row
                  then (STAGE_SEARCHING_FOR_CHAR, upper1, char_boxes_UL @ [(upper1, y)])
                  else if y = img_height - 1
                  then (STAGE_SEARCHING_FOR_CHAR, upper1, char_boxes_UL @ [(upper1, img_height)])
                  else (stage1, upper1, char_boxes_UL))
            else (stage1, upper1, char_boxes_UL)))"

definition char_boxes_UL_of :: "image \<Rightarrow> (nat \<times> nat) list \<Rightarrow> (nat \<times> nat) list" where
  "char_boxes_UL_of img char_boxes_LR =
     (case img_size img of (img_width, img_height) \<Rightarrow>
        snd (snd (foldl (\<lambda>st box. foldl (row_step (load img) img_height box) st [0..<img_height])
                    (STAGE_SEARCHING_FOR_CHAR, 0, []) char_boxes_LR)))"

text \<open>
  \<open>solve\<close> up to the cropping: \<open>None\<close> where it returns \<open>None\<close>, the glyph images
  otherwise.
\<close>

definition char_images_of :: "image \<Rightarrow> image list option" where
  "char_images_of img0 =
     (let img = binarize img0;
          char_boxes_LR = char_boxes_LR_of img
      in if length char_boxes_LR \<noteq> 4 then None
         else (let char_boxes_UL = char_boxes_UL_of img char_boxes_LR
               in if length char_boxes_UL \<noteq> 4 then None
                  else Some (map (\<lambda>((left, right), (upper, lower)). crop img (left, upper, right, lower))
                               (zip char_boxes_LR char_boxes_UL))))"

text \<open>
  The quick match, and the loop after it, which calls \<open>visual_recognise_char_img\<close> for
  every glyph whose quick match is \<open>None\<close> or an empty string. The loop is given the
  index \<open>i\<close> it has reached and returns, with the labels or the exception, the indices
  of the glyphs it has called \<open>visual_recognise_char_img\<close> for.
\<close>

definition quick_match ::
  "(nat list \<Rightarrow> 'd) \<Rightarrow> ('d \<Rightarrow> string option) \<Rightarrow> image list \<Rightarrow> string option list" where
  "quick_match sha1 sample_hashmap char_images =
     map (\<lambda>cimg. sample_hashmap (sha1 (tobytes cimg))) char_images"

fun visual_match ::
  "sample list \<Rightarrow> nat \<Rightarrow> (image \<times> string option) list \<Rightarrow> (exn + string list) \<times> nat list" where
  "visual_match samples i [] = (Inr [], [])"
| "visual_match samples i ((cimg, res) # rest) =
     (if res \<noteq> None \<and> res \<noteq> Some []
      then (case visual_match samples (Suc i) rest of
              (Inl e, scored) \<Rightarrow> (Inl e, scored)
            | (Inr labels, scored) \<Rightarrow> (Inr (the res # labels), scored))
      else (case visual_recognise_char_img samples cimg of
              Inl e \<Rightarrow> (Inl e, [i])
            | Inr label \<Rightarrow>
                (case visual_match samples (Suc i) rest of
                   (Inl e, scored) \<Rightarrow> (Inl e, i # scored)
                 | (Inr labels, scored) \<Rightarrow> (Inr (label # labels), i # scored))))"

definition solve_run ::
  "(nat list \<Rightarrow> 'd) \<Rightarrow> sample list \<Rightarrow> ('d \<Rightarrow> string option) \<Rightarrow> image \<Rightarrow>
   (exn + string option) \<times> nat list" where
  "solve_run sha1 samples sample_hashmap img =
     (case char_images_of img of
        None \<Rightarrow> (Inr None, [])
      | Some char_images \<Rightarrow>
          (case visual_match samples 0
                  (zip char_images (quick_match sha1 sample_hashmap char_images)) of
             (Inl e, scored) \<Rightarrow> (Inl e, scored)
           | (Inr result_list, scored) \<Rightarrow> (Inr (Some (concat result_list)), scored)))"

definition solve ::
  "(nat list \<Rightarrow> 'd) \<Rightarrow> sample list \<Rightarrow> ('d \<Rightarrow> string option) \<Rightarrow> image \<Rightarrow> exn + string option" where
  "solve sha1 samples sample_hashmap img = fst (solve_run sha1 samples sample_hashmap img)"

text \<open>Example images.\<close>

definition ex_image :: "nat \<Rightarrow> nat \<Rightarrow> (nat \<times> nat) list \<Rightarrow> image" where
  "ex_image w h ink =
     (let px = (\<lambda>p. if p \<in> set ink then 0 else 255) in
      \<lparr>img_size = (w, h), load = px, tobytes = bytes_of w h px\<rparr>)"

definition ex_touching :: image where
  "ex_touching = ex_image 14 1 (map (\<lambda>x. (x, 0)) [0, 1, 2, 3, 4, 5, 6, 7, 8, 9, 11, 13])"

definition ex_files :: "(string \<times> image) list" where
  "ex_files = [(''1_0.png'', ex_image 1 1 [(0, 0)]), (''7_0.png'', ex_image 5 1 (map (\<lambda>x. (x, 0)) [0, 1, 2, 3, 4]))]"

text \<open>
  The maximal runs of \<open>True\<close> in a list of flags, as pairs \<open>(first, last + 1)\<close> of
  positions counted from \<open>i\<close>.
\<close>

function spans :: "nat \<Rightarrow> bool list \<Rightarrow> (nat \<times> nat) list" where
  "spans i [] = []"
| "spans i (False # bs) = spans (Suc i) bs"
| "spans i (True # bs) =
     (i, Suc i + length (takeWhile id bs))
       # spans (Suc i + length (takeWhile id bs)) (dropWhile id bs)"
  by pat_completeness auto
termination
  by (relation "measure (\<lambda>(i, bs). length bs)") (auto simp: length_dropWhile_le less_Suc_eq_le)

text \<open>
  The body that the two scanning loops of \<open>solve\<close> share: \<open>blank\<close> tells whether a
  column (a row) has no ink, \<open>app\<close> adds a box to the list.
\<close>

definition scan_step ::
  "((nat \<times> nat) list \<Rightarrow> nat \<Rightarrow> nat \<Rightarrow> (nat \<times> nat) list) \<Rightarrow> (nat \<Rightarrow> bool) \<Rightarrow> nat \<Rightarrow>
   stage \<times> nat \<times> (nat \<times> nat) list \<Rightarrow> nat \<Rightarrow> stage \<times> nat \<times> (nat \<times> nat) list" where
  "scan_step app blank n st x =
     (case st of (stage, left, boxes) \<Rightarrow>
        (let starts = (\<not> blank x \<and> stage = STAGE_SEARCHING_FOR_CHAR);
             stage1 = (if starts then STAGE_PROCESSING_CHAR else stage);
             left1 = (if starts then x else left)
         in if stage1 = STAGE_PROCESSING_CHAR
            then (if blank x then (STAGE_SEARCHING_FOR_CHAR, left1, app boxes left1 x)
                  else if x = n - 1 then (STAGE_SEARCHING_FOR_CHAR, left1, app boxes left1 n)
                  else (stage1, left1, boxes))
            else (stage1, left1, boxes)))"

text \<open>The boxes that \<open>app\<close> makes of a list of spans.\<close>

definition boxes_of ::
  "((nat \<times> nat) list \<Rightarrow> nat \<Rightarrow> nat \<Rightarrow> (nat \<times> nat) list) \<Rightarrow> (nat \<times> nat) list \<Rightarrow> (nat \<times> nat) list" where
  "boxes_of app sp = concat (map (\<lambda>(a, b). app [] a b) sp)"

text \<open>
  The words of the specification. A column (a row of a column box) has ink when one of
  its pixels is 0; a span is a maximal run of columns (rows) with ink; a span wider than
  8 is split at its midpoint.
\<close>

definition column_has_ink :: "image \<Rightarrow> nat \<Rightarrow> bool" where
  "column_has_ink img x = list_ex (\<lambda>y. load img (x, y) = 0) [0..<snd (img_size img)]"

definition row_has_ink :: "image \<Rightarrow> nat \<times> nat \<Rightarrow> nat \<Rightarrow> bool" where
  "row_has_ink img box y = list_ex (\<lambda>x. load img (x, y) = 0) [fst box..<snd box]"

definition column_spans :: "image \<Rightarrow> (nat \<times> nat) list" where
  "column_spans img = spans 0 (map (column_has_ink img) [0..<fst (img_size img)])"

definition split_wide :: "nat \<times> nat \<Rightarrow> (nat \<times> nat) list" where
  "split_wide sp =
     (case sp of (left, right) \<Rightarrow>
        if right - left > 8 then [(left, (left + right) div 2), ((left + right) div 2, right)]
        else [(left, right)])"

definition column_boxes :: "image \<Rightarrow> (nat \<times> nat) list" where
  "column_boxes img = concat (map split_wide (column_spans img))"

definition row_spans :: "image \<Rightarrow> nat \<times> nat \<Rightarrow> (nat \<times> nat) list" where
  "row_spans img box = spans 0 (map (row_has_ink img box) [0..<snd (img_size img)])"

definition row_boxes :: "image \<Rightarrow> (nat \<times> nat) list" where
  "row_boxes img = concat (map (row_spans img) (column_boxes img))"

text \<open>
  The label the hash table holds for a digest, in words: that of the last file loaded
  whose buffer has this digest.
\<close>

definition last_label :: "(nat list \<Rightarrow> 'd) \<Rightarrow> (string \<times> image) list \<Rightarrow> 'd \<Rightarrow> string option" where
  "last_label sha1 files d =
     (let same = filter (\<lambda>(fle, img). sha1 (tobytes img) = d) files
      in if same = [] then None else Some (take 1 (fst (last same))))"

text \<open>
  The entry of \<open>result_list\<close> for a glyph after the second loop, when
  \<open>visual_recognise_char_img\<close> does not raise.
\<close>

definition label_of :: "sample list \<Rightarrow> image \<times> string option \<Rightarrow> string" where
  "label_of samples p =
     (case p of (cimg, res) \<Rightarrow>
        if res \<noteq> None \<and> res \<noteq> Some [] then the res
        else (case visual_recognise_char_img samples cimg of Inr label \<Rightarrow> label | Inl e \<Rightarrow> []))"

text \<open>More example inputs for the solver.\<close>

definition ex_one :: "(string \<times> image) list" where
  "ex_one = [(''1_0.png'', ex_image 1 1 [(0, 0)])]"

definition ex_separate :: image where
  "ex_separate = ex_image 7 1 (map (\<lambda>x. (x, 0)) [0, 2, 4, 6])"

definition ex_blank :: image where
  "ex_blank = ex_image 3 1 [(1, 0)]"

definition ex_tall_files :: "(string \<times> image) list" where
  "ex_tall_files = [(''1_0.png'', ex_image 1 1 [(0, 0)]), (''8_0.png'', ex_image 8 13 [])]"

definition ex_tall :: image where
  "ex_tall = \<lparr>img_size = (8, 13), load = (\<lambda>p. 0), tobytes = bytes_of 8 13 (\<lambda>p. 0)\<rparr>"

definition ex_pair :: image where
  "ex_pair = binarize (ex_image 2 1 [(0, 0), (1, 0)])"

section \<open>Properties of the fetch orchestrator\<close>

lemma fetch0_classify:
  "fst (fetch0 R P sid ymob cd t st) = classify P ymob (R (map fst (calls st)) (sid, ymob, cd, t))"
  by (simp add: fetch0_def classify_def Let_def split: reply.splits option.splits)

lemma fetch0_state:
  "snd (fetch0 R P sid ymob cd t st) =
     (let rq = (sid, ymob, cd, t); rp = R (map fst (calls st)) rq in
      st\<lparr>calls := calls st @ [(rq, rp)],
         log := log st @ (if rp = RequestFailed then [LogErrorOccurredFetching rq] else [])\<rparr>)"
  by (simp add: fetch0_def Let_def logger_def split: reply.splits option.splits)

lemma attempt_blocked:
  "\<not> v \<Longrightarrow> pool st = [] \<Longrightarrow> attempt R P qs sid ymob tok v st = (Return Blocked, tok, st)"
  by (simp add: attempt_def get_captcha_result_def)

lemma attempt_called:
  assumes nb: "v \<or> pool st \<noteq> []" and tt: "token_taken tok v st = ((cd, t), st1)"
    and rp: "rp = R (map fst (calls st)) (sid, ymob, cd, t)"
    and s2: "st2 = st1\<lparr>calls := calls st @ [((sid, ymob, cd, t), rp)],
                   log := log st @ LogTrying (sid, ymob, cd, t) #
                     (if rp = RequestFailed then [LogErrorOccurredFetching (sid, ymob, cd, t)] else [])\<rparr>"
  shows "attempt R P qs sid ymob tok v st =
     (case classify P ymob rp of
           Inr r \<Rightarrow> (Return Added, (cd, t), logger (LogAdded r) (add_result r st2))
         | Inl e \<Rightarrow> (case except_clauses qs sid ymob (cd, t) e st2 of (h, st3) \<Rightarrow> (h, (cd, t), st3)))"
proof -
  have g: "(if \<not> v then get_captcha_result st else Some (tok, st)) = Some ((cd, t), st1)"
    using nb tt by (auto simp: token_taken_def get_captcha_result_def split: list.splits)
  have c: "calls st1 = calls st" "log st1 = log st"
    using tt by (auto simp: token_taken_def split: if_splits)
  obtain k st2' where f: "fetch0 R P sid ymob cd t (logger (LogTrying (sid, ymob, cd, t)) st1) = (k, st2')"
    by (metis surj_pair)
  have k: "k = classify P ymob rp"
    using fetch0_classify[of R P sid ymob cd t "logger (LogTrying (sid, ymob, cd, t)) st1"] f c rp
    by (simp add: logger_def)
  have s: "st2' = st2"
    using fetch0_state[of R P sid ymob cd t "logger (LogTrying (sid, ymob, cd, t)) st1"] f c rp s2
    by (simp add: logger_def Let_def)
  show ?thesis
    unfolding attempt_def g using f k s by (simp split: sum.splits)
qed

lemma except_clauses_facts:
  assumes "except_clauses qs sid ymob tok e st = (h, st')"
  shows "h = decision (Inl e)" "results st' = results st" "calls st' = calls st"
    "futures st' = futures st @ readded qs (Inl e)"
    "work_queue st' = work_queue st @ readded qs (Inl e)"
    "generators st' = generators st" "running st' = running st" "pool st' = pool st"
  using assms
  by (auto simp: except_clauses_def decision_def readded_def logger_def submit_def
      split: if_splits)

lemma attempt_facts:
  assumes a: "attempt R P qs sid ymob tok v st = (h, tok', st')" and nb: "v \<or> pool st \<noteq> []"
  shows "\<exists>c. c = ((sid, ymob, fst tok', snd tok'), R (map fst (calls st)) (sid, ymob, fst tok', snd tok'))
     \<and> calls st' = calls st @ [c]
     \<and> h = decision (outcome P c)
     \<and> results st' = results st @ added (outcome P c)
     \<and> futures st' = futures st @ readded qs (outcome P c)
     \<and> work_queue st' = work_queue st @ readded qs (outcome P c)
     \<and> generators st' = generators st \<and> running st' = running st
     \<and> (if v then tok' = tok \<and> pool st' = pool st else pool st = tok' # pool st')"
proof -
  obtain cd t st1 where tt: "token_taken tok v st = ((cd, t), st1)"
    by (metis surj_pair)
  have p: "if v then (cd, t) = tok \<and> pool st1 = pool st else pool st = (cd, t) # pool st1"
    using tt nb by (cases "pool st") (auto simp: token_taken_def split: if_splits)
  have q: "results st1 = results st" "futures st1 = futures st" "work_queue st1 = work_queue st"
    "generators st1 = generators st" "running st1 = running st"
    using tt by (auto simp: token_taken_def split: if_splits)
  define rq where "rq = (sid, ymob, cd, t)"
  define rp where "rp = R (map fst (calls st)) (sid, ymob, cd, t)"
  define st2 where "st2 = st1\<lparr>calls := calls st @ [((sid, ymob, cd, t), rp)],
       log := log st @ LogTrying (sid, ymob, cd, t) #
          (if rp = RequestFailed then [LogErrorOccurredFetching (sid, ymob, cd, t)] else [])\<rparr>"
  have f2: "calls st2 = calls st @ [(rq, rp)]" "results st2 = results st" "futures st2 = futures st"
    "work_queue st2 = work_queue st" "generators st2 = generators st" "running st2 = running st"
    "pool st2 = pool st1"
    using q by (simp_all add: st2_def rq_def)
  have o: "outcome P (rq, rp) = classify P ymob rp"
    by (simp add: outcome_def rq_def)
  have a': "(case classify P ymob rp of
           Inr r \<Rightarrow> (Return Added, (cd, t), logger (LogAdded r) (add_result r st2))
         | Inl e \<Rightarrow> (case except_clauses qs sid ymob (cd, t) e st2 of (h, st3) \<Rightarrow> (h, (cd, t), st3))) = (h, tok', st')"
    using a attempt_called[where R=R and P=P and qs=qs and sid=sid and ymob=ymob and rp=rp
        and ?st2.0=st2, OF nb tt rp_def st2_def] by simp
  show ?thesis
  proof (cases "classify P ymob rp")
    case (Inr r)
    then have "h = Return Added" "tok' = (cd, t)" "st' = logger (LogAdded r) (add_result r st2)"
      using a' by simp_all
    then show ?thesis
      using f2 p o Inr by (simp add: rq_def rp_def decision_def added_def readded_def logger_def add_result_def)
  next
    case (Inl e)
    obtain h3 st3 where e3: "except_clauses qs sid ymob (cd, t) e st2 = (h3, st3)"
      by (metis surj_pair)
    then have "h = h3" "tok' = (cd, t)" "st' = st3"
      using a' Inl by simp_all
    then show ?thesis
      using except_clauses_facts[OF e3] f2 p o Inl by (simp add: rq_def rp_def added_def)
  qed
qed

lemma decision_not_Blocked: "decision k \<noteq> Return Blocked"
  by (simp add: decision_def split: sum.splits)

lemma retries_nothing: "retries k \<Longrightarrow> added k = [] \<and> readded qs k = []"
  by (auto simp: retries_def decision_def added_def readded_def split: sum.splits if_splits)

lemma fetch_while_trace:
  "fetch_while fuel R P qs sid ymob tok v st = (x, st') \<Longrightarrow>
   \<exists>new. calls st' = calls st @ new
     \<and> (\<forall>c\<in>set new. qkey c = (sid, ymob))
     \<and> (\<forall>c\<in>set (butlast new). retries (outcome P c))
     \<and> generators st' = generators st \<and> running st' = running st
     \<and> (if x = None \<or> x = Some (End Blocked)
         then (\<forall>c\<in>set new. retries (outcome P c)) \<and> results st' = results st
              \<and> futures st' = futures st \<and> (x = None \<longrightarrow> length new = fuel)
         else new \<noteq> []
              \<and> decision (outcome P (last new)) =
                  (case x of Some (Skip tok') \<Rightarrow> SetSkip | Some (End e) \<Rightarrow> Return e)
              \<and> results st' = results st @ added (outcome P (last new))
              \<and> futures st' = futures st @ readded qs (outcome P (last new)))"
proof (induction fuel arbitrary: tok v st)
  case 0
  then show ?case by simp
next
  case (Suc fuel)
  obtain h tok1 st1 where a: "attempt R P qs sid ymob tok v st = (h, tok1, st1)"
    by (metis surj_pair)
  show ?case
  proof (cases "v \<or> pool st \<noteq> []")
    case False
    then have "attempt R P qs sid ymob tok v st = (Return Blocked, tok, st)"
      by (simp add: attempt_blocked)
    then have "x = Some (End Blocked)" "st' = st"
      using Suc.prems by simp_all
    then show ?thesis by simp
  next
    case True
    from attempt_facts[OF a True] obtain c where
      c: "c = ((sid, ymob, fst tok1, snd tok1), R (map fst (calls st)) (sid, ymob, fst tok1, snd tok1))"
      and cs: "calls st1 = calls st @ [c]"
      and h: "h = decision (outcome P c)"
      and rs: "results st1 = results st @ added (outcome P c)"
      and fs: "futures st1 = futures st @ readded qs (outcome P c)"
      and gs: "generators st1 = generators st" "running st1 = running st"
      by blast
    have k: "qkey c = (sid, ymob)"
      by (simp add: c qkey_def)
    show ?thesis
    proof (cases h)
      case (Return e)
      then have "x = Some (End e)" "st' = st1"
        using Suc.prems a by simp_all
      moreover have "e \<noteq> Blocked"
        using Return h decision_not_Blocked by metis
      ultimately show ?thesis
        using cs h rs fs gs k Return by (intro exI[of _ "[c]"]) simp
    next
      case SetSkip
      then have "x = Some (Skip tok1)" "st' = st1"
        using Suc.prems a by simp_all
      then show ?thesis
        using cs h rs fs gs k SetSkip by (intro exI[of _ "[c]"]) simp
    next
      case (Continue v')
      then have r: "fetch_while fuel R P qs sid ymob tok1 v' st1 = (x, st')"
        using Suc.prems a by simp
      have rt: "retries (outcome P c)"
        using Continue h by (simp add: retries_def)
      from Suc.IH[OF r] obtain new where
        n: "calls st' = calls st1 @ new"
          "\<forall>c\<in>set new. qkey c = (sid, ymob)"
          "\<forall>c\<in>set (butlast new). retries (outcome P c)"
          "generators st' = generators st1" "running st' = running st1"
          "if x = None \<or> x = Some (End Blocked)
           then (\<forall>c\<in>set new. retries (outcome P c)) \<and> results st' = results st1
              \<and> futures st' = futures st1 \<and> (x = None \<longrightarrow> length new = fuel)
           else new \<noteq> []
              \<and> decision (outcome P (last new)) =
                  (case x of Some (Skip tok') \<Rightarrow> SetSkip | Some (End e) \<Rightarrow> Return e)
              \<and> results st' = results st1 @ added (outcome P (last new))
              \<and> futures st' = futures st1 @ readded qs (outcome P (last new))"
        by blast
      have b: "\<forall>d\<in>set (butlast (c # new)). retries (outcome P d)"
        using n(3) rt by (cases new) auto
      show ?thesis
        using n cs rs fs gs k rt b retries_nothing[OF rt, of qs]
        by (intro exI[of _ "c # new"]) (auto split: if_splits)
    qed
  qed
qed

lemma attempt_raised_log:
  assumes a: "attempt R P qs sid ymob tok v st = (Return (Raised x), tok', st')"
  shows "log st' = log st @ [LogTrying (fst (last (calls st')))]"
proof -
  have nb: "v \<or> pool st \<noteq> []"
    using a attempt_blocked[of v st R P qs sid ymob tok] by auto
  obtain cd t st1 where tt: "token_taken tok v st = ((cd, t), st1)"
    by (metis surj_pair)
  define rp where "rp = R (map fst (calls st)) (sid, ymob, cd, t)"
  define st2 where "st2 = st1\<lparr>calls := calls st @ [((sid, ymob, cd, t), rp)],
       log := log st @ LogTrying (sid, ymob, cd, t) #
          (if rp = RequestFailed then [LogErrorOccurredFetching (sid, ymob, cd, t)] else [])\<rparr>"
  have a': "(case classify P ymob rp of
           Inr r \<Rightarrow> (Return Added, (cd, t), logger (LogAdded r) (add_result r st2))
         | Inl e \<Rightarrow> (case except_clauses qs sid ymob (cd, t) e st2 of (h, st3) \<Rightarrow> (h, (cd, t), st3)))
       = (Return (Raised x), tok', st')"
    using a attempt_called[where R=R and P=P and qs=qs and sid=sid and ymob=ymob and rp=rp
        and ?st2.0=st2, OF nb tt rp_def st2_def] by simp
  then obtain e where e: "classify P ymob rp = Inl e"
    "except_clauses qs sid ymob (cd, t) e st2 = (Return (Raised x), st')"
    by (cases "classify P ymob rp") (auto split: prod.splits)
  have "e \<noteq> RuntimeError" "st' = st2"
    using e(2) by (auto simp: except_clauses_def split: if_splits)
  then have "rp \<noteq> RequestFailed"
    using e(1) by (auto simp: classify_def)
  then show ?thesis
    using \<open>st' = st2\<close> by (simp add: st2_def)
qed

lemma fetch_while_raised_log:
  "fetch_while fuel R P qs sid ymob tok v st = (Some (End (Raised x)), st') \<Longrightarrow>
   log st' = butlast (log st') @ [LogTrying (fst (last (calls st')))]"
proof (induction fuel arbitrary: tok v st)
  case 0
  then show ?case by simp
next
  case (Suc fuel)
  obtain h tok1 st1 where a: "attempt R P qs sid ymob tok v st = (h, tok1, st1)"
    by (metis surj_pair)
  show ?case
  proof (cases h)
    case (Return e)
    then have "e = Raised x" "st' = st1"
      using Suc.prems a by simp_all
    then show ?thesis
      using attempt_raised_log[of R P qs sid ymob tok v st x tok1 st1] a Return by simp
  next
    case SetSkip
    then show ?thesis using Suc.prems a by simp
  next
    case (Continue v')
    then show ?thesis using Suc.prems a Suc.IH by simp
  qed
qed

lemma attempted_same: "\<forall>a\<in>set tr. a = k \<Longrightarrow> attempted_in_order tr (k # items)"
  by (induction tr) auto

lemma attempted_append:
  "\<forall>a\<in>set tr. a = k \<Longrightarrow> tr \<noteq> [] \<Longrightarrow> attempted_in_order tr2 items \<Longrightarrow>
   attempted_in_order (tr @ tr2) (k # items)"
proof (induction tr)
  case Nil
  then show ?case by simp
next
  case (Cons a tr)
  then show ?case by (cases tr) auto
qed

lemma retries_not_returns: "retries k \<Longrightarrow> \<not> returns k"
  by (auto simp: retries_def returns_def split: handled.splits)

lemma SetSkip_not_returns: "decision k = SetSkip \<Longrightarrow> \<not> returns k"
  by (simp add: returns_def)

lemma decision_not_NoValidYMOB: "decision k \<noteq> Return NoValidYMOB"
  by (simp add: decision_def split: sum.splits)

lemma advance_fields:
  "calls (advance qs rest st) = calls st" "results (advance qs rest st) = results st"
  "futures (advance qs rest st) = futures st" "running (advance qs rest st) = running st"
  "log (advance qs rest st) = log st" "pool (advance qs rest st) = pool st"
  by (simp_all add: advance_def split: query_set.splits)

lemma fetch_for_trace:
  "fetch_for fuel R P qs items q_sid tok st = (e, st') \<Longrightarrow>
   \<exists>new. calls st' = calls st @ new
     \<and> attempted_in_order (map qkey new) items
     \<and> (\<forall>c\<in>set (butlast new). \<not> returns (outcome P c))
     \<and> running st' = running st
     \<and> (if e = None \<or> e = Some Blocked \<or> e = Some NoValidYMOB
         then (\<forall>c\<in>set new. \<not> returns (outcome P c)) \<and> results st' = results st
              \<and> futures st' = futures st
         else new \<noteq> []
              \<and> (\<exists>e'. e = Some e' \<and> decision (outcome P (last new)) = Return e')
              \<and> results st' = results st @ added (outcome P (last new))
              \<and> futures st' = futures st @ readded qs (outcome P (last new)))
     \<and> (e = Some NoValidYMOB \<longrightarrow> set items \<subseteq> qkey ` set new)"
proof (induction items arbitrary: q_sid tok st)
  case Nil
  then show ?case by (auto simp: logger_def)
next
  case (Cons q rest)
  obtain sid ymob where q: "q = (sid, ymob)"
    by (cases q)
  define st0 where "st0 = advance qs rest st"
  obtain x st1 where w: "fetch_while fuel R P qs sid ymob tok True st0 = (x, st1)"
    by (metis surj_pair)
  from fetch_while_trace[OF w] obtain new1 where
    n1: "calls st1 = calls st @ new1"
      "\<forall>c\<in>set new1. qkey c = (sid, ymob)"
      "\<forall>c\<in>set (butlast new1). retries (outcome P c)"
      "running st1 = running st"
      "if x = None \<or> x = Some (End Blocked)
       then (\<forall>c\<in>set new1. retries (outcome P c)) \<and> results st1 = results st
            \<and> futures st1 = futures st \<and> (x = None \<longrightarrow> length new1 = fuel)
       else new1 \<noteq> []
            \<and> decision (outcome P (last new1)) =
                (case x of Some (Skip tok') \<Rightarrow> SetSkip | Some (End e) \<Rightarrow> Return e)
            \<and> results st1 = results st @ added (outcome P (last new1))
            \<and> futures st1 = futures st @ readded qs (outcome P (last new1))"
    unfolding st0_def advance_fields by blast
  have o1: "attempted_in_order (map qkey new1) (q # rest)"
    using n1(2) q by (intro attempted_same) auto
  have b1: "\<forall>c\<in>set (butlast new1). \<not> returns (outcome P c)"
    using n1(3) retries_not_returns by blast
  show ?case
  proof (cases x)
    case None
    then have "e = None" "st' = st1"
      using Cons.prems w q by (simp_all add: st0_def Let_def)
    have r5: "\<forall>c\<in>set new1. retries (outcome P c)" "results st1 = results st"
      "futures st1 = futures st"
      using n1(5) None by simp_all
    then have "\<forall>c\<in>set new1. \<not> returns (outcome P c)"
      using retries_not_returns by blast
    then show ?thesis
      using n1(1,4) r5(2,3) o1 b1 \<open>e = None\<close> \<open>st' = st1\<close> by (intro exI[of _ new1]) simp
  next
    case (Some y)
    show ?thesis
    proof (cases y)
      case (End e1)
      then have e: "e = Some e1" "st' = st1"
        using Cons.prems w q Some by (simp_all add: st0_def Let_def)
      show ?thesis
      proof (cases "e1 = Blocked")
        case True
        have r5: "\<forall>c\<in>set new1. retries (outcome P c)" "results st1 = results st"
          "futures st1 = futures st"
          using n1(5) Some End True by simp_all
        then have "\<forall>c\<in>set new1. \<not> returns (outcome P c)"
          using retries_not_returns by blast
        then show ?thesis
          using n1(1,4) r5(2,3) o1 b1 e True by (intro exI[of _ new1]) simp
      next
        case False
        have r5: "new1 \<noteq> []" "decision (outcome P (last new1)) = Return e1"
          "results st1 = results st @ added (outcome P (last new1))"
          "futures st1 = futures st @ readded qs (outcome P (last new1))"
          using n1(5) Some End False by simp_all
        have "e1 \<noteq> NoValidYMOB"
          using r5(2) decision_not_NoValidYMOB[of "outcome P (last new1)"] by auto
        then show ?thesis
          using n1(1,4) r5 o1 b1 e False by (intro exI[of _ new1]) simp
      qed
    next
      case (Skip tok1)
      define q_sid' where "q_sid' = (if q_sid = None \<or> q_sid = Some [] then Some sid else q_sid)"
      have r: "fetch_for fuel R P qs rest q_sid' tok1 st1 = (e, st')"
        using Cons.prems w q Some Skip by (simp add: st0_def Let_def q_sid'_def)
      have ne: "new1 \<noteq> []" and sk: "decision (outcome P (last new1)) = SetSkip"
        and r1: "results st1 = results st @ added (outcome P (last new1))"
        and f1: "futures st1 = futures st @ readded qs (outcome P (last new1))"
        using n1(5) Some Skip by simp_all
      have z: "added (outcome P (last new1)) = []" "readded qs (outcome P (last new1)) = []"
        using sk by (auto simp: decision_def added_def readded_def split: sum.splits if_splits)
      have a1: "\<forall>c\<in>set new1. \<not> returns (outcome P c)"
      proof
        fix c assume "c \<in> set new1"
        then have "c \<in> set (butlast new1) \<or> c = last new1"
          using ne by (metis append_butlast_last_id in_set_conv_decomp rotate1.simps(2) set_ConsD set_rotate1)
        then show "\<not> returns (outcome P c)"
          using b1 sk SetSkip_not_returns by auto
      qed
      from Cons.IH[OF r] obtain new2 where
        n2: "calls st' = calls st1 @ new2"
          "attempted_in_order (map qkey new2) rest"
          "\<forall>c\<in>set (butlast new2). \<not> returns (outcome P c)"
          "running st' = running st1"
          "if e = None \<or> e = Some Blocked \<or> e = Some NoValidYMOB
           then (\<forall>c\<in>set new2. \<not> returns (outcome P c)) \<and> results st' = results st1
              \<and> futures st' = futures st1
           else new2 \<noteq> []
              \<and> (\<exists>e'. e = Some e' \<and> decision (outcome P (last new2)) = Return e')
              \<and> results st' = results st1 @ added (outcome P (last new2))
              \<and> futures st' = futures st1 @ readded qs (outcome P (last new2))"
          "e = Some NoValidYMOB \<longrightarrow> set rest \<subseteq> qkey ` set new2"
        by blast
      have o: "attempted_in_order (map qkey (new1 @ new2)) (q # rest)"
        using attempted_append[of "map qkey new1" q "map qkey new2" rest] n1(2) ne n2(2) q
        by auto
      have b: "\<forall>c\<in>set (butlast (new1 @ new2)). \<not> returns (outcome P c)"
        using a1 n2(3) b1 by (auto simp: butlast_append)
      have qin: "q \<in> qkey ` set new1"
        using ne n1(2) q by (cases new1) auto
      show ?thesis
      proof (cases "e = None \<or> e = Some Blocked \<or> e = Some NoValidYMOB")
        case True
        then have r5: "\<forall>c\<in>set new2. \<not> returns (outcome P c)" "results st' = results st1"
          "futures st' = futures st1"
          using n2(5) by simp_all
        have "\<forall>c\<in>set (new1 @ new2). \<not> returns (outcome P c)"
          using a1 r5(1) by auto
        moreover have "e = Some NoValidYMOB \<longrightarrow> set (q # rest) \<subseteq> qkey ` set (new1 @ new2)"
          using n2(6) qin by auto
        ultimately show ?thesis
          using n1(1,4) n2(1,4) r5(2,3) o b r1 f1 z True
          by (intro exI[of _ "new1 @ new2"]) simp
      next
        case False
        then have r5: "new2 \<noteq> []"
          "\<exists>e'. e = Some e' \<and> decision (outcome P (last new2)) = Return e'"
          "results st' = results st1 @ added (outcome P (last new2))"
          "futures st' = futures st1 @ readded qs (outcome P (last new2))"
          using n2(5) by simp_all
        have ne3: "e \<noteq> None" "e \<noteq> Some Blocked" "e \<noteq> Some NoValidYMOB"
          using False by auto
        show ?thesis
          using n1(1,4) n2(1,4) r5 o b r1 f1 z
          by (intro exI[of _ "new1 @ new2"]) (simp add: ne3)
      qed
    qed
  qed
qed

lemma fetch_for_raised_log:
  "fetch_for fuel R P qs items q_sid tok st = (Some (Raised x), st') \<Longrightarrow>
   log st' = butlast (log st') @ [LogTrying (fst (last (calls st')))]"
proof (induction items arbitrary: q_sid tok st)
  case Nil
  then show ?case by simp
next
  case (Cons q rest)
  obtain sid ymob where q: "q = (sid, ymob)"
    by (cases q)
  obtain y st1 where w: "fetch_while fuel R P qs sid ymob tok True (advance qs rest st) = (y, st1)"
    by (metis surj_pair)
  show ?case
  proof (cases y)
    case None
    then show ?thesis using Cons.prems w q by (simp add: Let_def)
  next
    case (Some z)
    show ?thesis
    proof (cases z)
      case (Skip tok1)
      then show ?thesis
        using Cons.prems w q Some Cons.IH by (simp add: Let_def)
    next
      case (End e1)
      then have "e1 = Raised x" "st' = st1"
        using Cons.prems w q Some by (simp_all add: Let_def)
      then show ?thesis
        using fetch_while_raised_log[of fuel R P qs sid ymob tok True "advance qs rest st" x st1]
          w Some End by simp
    qed
  qed
qed

lemma fetch_cases:
  assumes "fetch fuel R P qs st = (e, st')"
  obtains (not_running) "\<not> running st" "e = Some NotRunning" "st' = st"
  | (blocked) "running st" "pool st = []" "e = Some Blocked" "st' = st"
  | (run) tok st0 where "running st" "pool st = tok # pool st0"
      "calls st0 = calls st" "results st0 = results st" "futures st0 = futures st"
      "log st0 = log st" "work_queue st0 = work_queue st"
      "fetch_for fuel R P qs (items_of qs st) None tok st0 = (e, st')"
proof (cases "running st")
  case False
  then have "e = Some NotRunning" "st' = st"
    using assms by (simp_all add: fetch_def)
  then show ?thesis
    using False by (rule not_running[rotated])
next
  case True
  show ?thesis
  proof (cases "pool st")
    case Nil
    then have "e = Some Blocked" "st' = st"
      using assms True by (simp_all add: fetch_def get_captcha_result_def)
    then show ?thesis
      using True Nil by (intro blocked)
  next
    case (Cons tok rest)
    have "items_of qs (st\<lparr>pool := rest\<rparr>) = items_of qs st"
      by (simp add: items_of_def split: query_set.splits)
    then have f: "fetch_for fuel R P qs (items_of qs st) None tok (st\<lparr>pool := rest\<rparr>) = (e, st')"
      using assms True Cons by (simp add: fetch_def get_captcha_result_def)
    show ?thesis
      by (rule run[of tok "st\<lparr>pool := rest\<rparr>"]) (use True Cons f in simp_all)
  qed
qed

lemma succeeded_decision: "succeeded P c \<longleftrightarrow> decision (outcome P c) = Return Added"
  by (auto simp: succeeded_def decision_def split: sum.splits)

lemma succeeded_added: "succeeded P c \<longleftrightarrow> (\<exists>r. outcome P c = Inr r \<and> added (outcome P c) = [r])"
  by (auto simp: succeeded_def added_def split: sum.splits)

lemma not_succeeded_added: "\<not> succeeded P c \<Longrightarrow> added (outcome P c) = []"
  by (auto simp: succeeded_def added_def split: sum.splits)

lemma succeeded_returns: "succeeded P c \<Longrightarrow> returns (outcome P c)"
  by (simp add: succeeded_decision returns_def)

lemma fetch_for_first_success:
  assumes f: "fetch_for fuel R P qs items q_sid tok st = (e, st')"
  shows "\<exists>new. calls st' = calls st @ new
      \<and> attempted_in_order (map qkey new) items
      \<and> (\<forall>c\<in>set (butlast new). \<not> succeeded P c)
      \<and> (if new \<noteq> [] \<and> succeeded P (last new)
          then e = Some Added \<and> (\<exists>r. outcome P (last new) = Inr r \<and> results st' = results st @ [r])
          else e \<noteq> Some Added \<and> results st' = results st)
      \<and> (e = Some NoValidYMOB \<longrightarrow> set items \<subseteq> qkey ` set new)"
proof -
  from fetch_for_trace[OF f] obtain new where
    n: "calls st' = calls st @ new"
      "attempted_in_order (map qkey new) items"
      "\<forall>c\<in>set (butlast new). \<not> returns (outcome P c)"
      "if e = None \<or> e = Some Blocked \<or> e = Some NoValidYMOB
         then (\<forall>c\<in>set new. \<not> returns (outcome P c)) \<and> results st' = results st
              \<and> futures st' = futures st
         else new \<noteq> []
              \<and> (\<exists>e'. e = Some e' \<and> decision (outcome P (last new)) = Return e')
              \<and> results st' = results st @ added (outcome P (last new))
              \<and> futures st' = futures st @ readded qs (outcome P (last new))"
      "e = Some NoValidYMOB \<longrightarrow> set items \<subseteq> qkey ` set new"
    by blast
  have b: "\<forall>c\<in>set (butlast new). \<not> succeeded P c"
    using n(3) succeeded_returns by blast
  have k: "if new \<noteq> [] \<and> succeeded P (last new)
          then e = Some Added \<and> (\<exists>r. outcome P (last new) = Inr r \<and> results st' = results st @ [r])
          else e \<noteq> Some Added \<and> results st' = results st"
  proof (cases "e = None \<or> e = Some Blocked \<or> e = Some NoValidYMOB")
    case True
    then have a: "\<forall>c\<in>set new. \<not> returns (outcome P c)" "results st' = results st"
      using n(4) by simp_all
    have "new \<noteq> [] \<longrightarrow> \<not> succeeded P (last new)"
      using a(1) succeeded_returns last_in_set by blast
    then show ?thesis
      using True a(2) by auto
  next
    case False
    then have a: "new \<noteq> []" "\<exists>e'. e = Some e' \<and> decision (outcome P (last new)) = Return e'"
      "results st' = results st @ added (outcome P (last new))"
      using n(4) by simp_all
    show ?thesis
    proof (cases "succeeded P (last new)")
      case True
      then show ?thesis
        using a succeeded_decision[of P "last new"] succeeded_added[of P "last new"] by auto
    next
      case False
      then show ?thesis
        using a succeeded_decision[of P "last new"] not_succeeded_added[of P "last new"] by auto
    qed
  qed
  show ?thesis
    using n(1,2,5) b k by blast
qed

text \<open>
  Claim C5. Whatever the fuel, the remote, the query set and the state a task starts in:
  the calls the task has made are for the keys of the query set in the order supplied,
  none left out and none gone back to; no call before the last one succeeded; when the
  last call made succeeded, the task has ended there, and exactly one record, the one
  parsed from that reply, was appended to the results; otherwise nothing was appended.
  A task that ends with every key exhausted has called each of them and appended nothing.
\<close>

theorem fetch_first_success_wins:
  assumes f: "fetch fuel R P qs st = (e, st')"
  shows "\<exists>new. calls st' = calls st @ new
      \<and> attempted_in_order (map qkey new) (items_of qs st)
      \<and> (\<forall>c\<in>set (butlast new). \<not> succeeded P c)
      \<and> (if new \<noteq> [] \<and> succeeded P (last new)
          then e = Some Added \<and> (\<exists>r. outcome P (last new) = Inr r \<and> results st' = results st @ [r])
          else e \<noteq> Some Added \<and> results st' = results st)
      \<and> (e = Some NoValidYMOB \<longrightarrow> set (items_of qs st) \<subseteq> qkey ` set new)"
  using f
proof (cases rule: fetch_cases)
  case not_running
  then show ?thesis by (intro exI[of _ "[]"]) simp
next
  case blocked
  then show ?thesis by (intro exI[of _ "[]"]) simp
next
  case (run tok st0)
  from fetch_for_first_success[OF run(8)] show ?thesis
    unfolding run(3,4) .
qed

text \<open>
  The example of the specification: the remote answers invalid secondary key for the
  first two keys of a set of three and success for the third.
\<close>

theorem fetch_first_success_wins_witness:
  "fst (fetch 3 ex_remote_third ex_parse (Sequence ex_keys) (ex_service [(''ab12'', ''t0'')])) = Some Added
   \<and> (\<exists>new. calls (snd (fetch 3 ex_remote_third ex_parse (Sequence ex_keys) (ex_service [(''ab12'', ''t0'')])))
           = calls (ex_service [(''ab12'', ''t0'')]) @ new
      \<and> attempted_in_order (map qkey new) ex_keys
      \<and> new \<noteq> [] \<and> succeeded ex_parse (last new)
      \<and> results (snd (fetch 3 ex_remote_third ex_parse (Sequence ex_keys) (ex_service [(''ab12'', ''t0'')])))
           = results (ex_service [(''ab12'', ''t0'')]) @ [''9901''])"
proof -
  let ?st = "ex_service [(''ab12'', ''t0'')]"
  let ?r = "fetch 3 ex_remote_third ex_parse (Sequence ex_keys) ?st"
  have run: "?r = (fst ?r, snd ?r)"
    by simp
  have e: "fst ?r = Some Added"
    by code_simp
  have r: "results (snd ?r) = results ?st @ [''9901'']"
    by code_simp
  have i: "items_of (Sequence ex_keys) ?st = ex_keys"
    by (simp add: items_of_def)
  from fetch_first_success_wins[OF run] obtain new where
    n: "calls (snd ?r) = calls ?st @ new" "attempted_in_order (map qkey new) ex_keys"
      "if new \<noteq> [] \<and> succeeded ex_parse (last new)
          then fst ?r = Some Added \<and> (\<exists>r. outcome ex_parse (last new) = Inr r \<and> results (snd ?r) = results ?st @ [r])
          else fst ?r \<noteq> Some Added \<and> results (snd ?r) = results ?st"
    unfolding i by blast
  have "new \<noteq> [] \<and> succeeded ex_parse (last new)"
    using n(3) e by (auto split: if_splits)
  then show ?thesis
    using e r n(1,2) by blast
qed

lemma unrecognized_outcome:
  "unrecognized (snd c) \<Longrightarrow> outcome P c = Inl UnknownResponseException"
  by (cases c)
     (auto simp: unrecognized_def outcome_def classify_def split: reply.splits option.splits)

text \<open>
  Claim C1, as amended. \<open>UnknownResponseException\<close> is a \<open>BaseException\<close>, so neither
  \<open>except Exception\<close> in \<open>_fetch\<close> nor the one in \<open>wrapped\<close> catches it. A call whose
  reply carries an unrecognized status code is therefore the last call of its task: the
  task ends there with that exception, no record is appended, no task is scheduled, the
  last entry of the log is still the \<open>Trying to fetch\<close> line of that call, and \<open>wrapped\<close>
  passes the exception on unchanged.
\<close>

theorem unknown_response_ends_task:
  assumes f: "fetch fuel R P qs st = (e, st')"
    and c: "calls st' = calls st @ pre @ c # post"
    and u: "unrecognized (snd c)"
  shows "post = [] \<and> e = Some (Raised UnknownResponseException)
     \<and> results st' = results st \<and> futures st' = futures st
     \<and> log st' = butlast (log st') @ [LogTrying (fst c)]
     \<and> wrapped (e, st') = (e, st')"
  using f
proof (cases rule: fetch_cases)
  case not_running
  then show ?thesis using c by simp
next
  case blocked
  then show ?thesis using c by simp
next
  case (run tok st0)
  from fetch_for_trace[OF run(8)] obtain new where
    n: "calls st' = calls st @ new"
      "\<forall>c\<in>set (butlast new). \<not> returns (outcome P c)"
      "if e = None \<or> e = Some Blocked \<or> e = Some NoValidYMOB
         then (\<forall>c\<in>set new. \<not> returns (outcome P c)) \<and> results st' = results st
              \<and> futures st' = futures st
         else new \<noteq> []
              \<and> (\<exists>e'. e = Some e' \<and> decision (outcome P (last new)) = Return e')
              \<and> results st' = results st @ added (outcome P (last new))
              \<and> futures st' = futures st @ readded qs (outcome P (last new))"
    unfolding run(3,4,5) by blast
  have new: "new = pre @ c # post"
    using n(1) c by simp
  have o: "outcome P c = Inl UnknownResponseException"
    using u by (rule unrecognized_outcome)
  then have d: "decision (outcome P c) = Return (Raised UnknownResponseException)"
    by (simp add: decision_def)
  then have rt: "returns (outcome P c)"
    by (simp add: returns_def)
  have post: "post = []"
  proof (rule ccontr)
    assume "post \<noteq> []"
    then have "c \<in> set (butlast new)"
      by (simp add: new butlast_append)
    then show False using n(2) rt by blast
  qed
  then have l: "last new = c" "c \<in> set new"
    by (simp_all add: new)
  then have ne: "\<not> (e = None \<or> e = Some Blocked \<or> e = Some NoValidYMOB)"
    using n(3) rt by (auto split: if_splits)
  then have k: "\<exists>e'. e = Some e' \<and> decision (outcome P (last new)) = Return e'"
    "results st' = results st @ added (outcome P (last new))"
    "futures st' = futures st @ readded qs (outcome P (last new))"
    using n(3) by simp_all
  have e: "e = Some (Raised UnknownResponseException)"
    using k(1) d l(1) by auto
  have rf: "results st' = results st" "futures st' = futures st"
    using k(2,3) o l(1) by (simp_all add: added_def readded_def)
  have "last (calls st') = c"
    using c post by simp
  then have lg: "log st' = butlast (log st') @ [LogTrying (fst c)]"
    using fetch_for_raised_log[of fuel R P qs "items_of qs st" None tok st0 UnknownResponseException st']
      run(8) e by simp
  have w: "wrapped (e, st') = (e, st')"
    by (simp add: e wrapped_def)
  show ?thesis
    using post e rf lg w by blast
qed

text \<open>
  Claim C1 as stated fails: with fuel for five passes, two tokens in the buffer and a
  remote that answers status 0, the task makes one call, logs nothing about the reply
  and ends with the exception.
\<close>

theorem unknown_response_not_retried:
  "fst (wrapped (fetch 5 ex_remote_unknown ex_parse (Sequence ex_keys)
          (ex_service [(''ab12'', ''t0''), (''cd34'', ''t1'')])))
     = Some (Raised UnknownResponseException)
   \<and> calls (snd (wrapped (fetch 5 ex_remote_unknown ex_parse (Sequence ex_keys)
          (ex_service [(''ab12'', ''t0''), (''cd34'', ''t1'')]))))
     = [((''0000000001'', ''9903'', ''ab12'', ''t0''), Body \<lparr>code = Some 0, args = ()\<rparr>)]
   \<and> log (snd (wrapped (fetch 5 ex_remote_unknown ex_parse (Sequence ex_keys)
          (ex_service [(''ab12'', ''t0''), (''cd34'', ''t1'')]))))
     = [LogTrying (''0000000001'', ''9903'', ''ab12'', ''t0'')]"
  by code_simp

text \<open>The same run satisfies the hypotheses of the amended claim.\<close>

theorem unknown_response_ends_task_witness:
  "calls (snd (fetch 5 ex_remote_unknown ex_parse (Sequence ex_keys)
          (ex_service [(''ab12'', ''t0''), (''cd34'', ''t1'')])))
     = calls (ex_service [(''ab12'', ''t0''), (''cd34'', ''t1'')]) @ [] @
         ((''0000000001'', ''9903'', ''ab12'', ''t0''), Body \<lparr>code = Some 0, args = ()\<rparr>) # []
   \<and> unrecognized (Body \<lparr>code = Some 0, args = ()\<rparr> :: unit reply)
   \<and> fst (fetch 5 ex_remote_unknown ex_parse (Sequence ex_keys)
          (ex_service [(''ab12'', ''t0''), (''cd34'', ''t1'')]))
     = Some (Raised UnknownResponseException)
   \<and> results (snd (fetch 5 ex_remote_unknown ex_parse (Sequence ex_keys)
          (ex_service [(''ab12'', ''t0''), (''cd34'', ''t1'')]))) = []"
proof -
  let ?st = "ex_service [(''ab12'', ''t0''), (''cd34'', ''t1'')]"
  let ?r = "fetch 5 ex_remote_unknown ex_parse (Sequence ex_keys) ?st"
  let ?c = "((''0000000001'', ''9903'', ''ab12'', ''t0''), Body \<lparr>code = Some 0, args = ()\<rparr> :: unit reply)"
  have run: "?r = (fst ?r, snd ?r)"
    by simp
  have "calls (snd ?r) = [?c]"
    by code_simp
  moreover have "calls ?st = []"
    by (simp add: ex_service_def)
  ultimately have c: "calls (snd ?r) = calls ?st @ [] @ ?c # []"
    by simp
  have u: "unrecognized (snd ?c)"
    by (simp add: unrecognized_def)
  have "results ?st = []"
    by (simp add: ex_service_def)
  then show ?thesis
    using unknown_response_ends_task[OF run c u] c u by simp
qed

lemma invalid_token_outcome:
  "invalid_token rp \<Longrightarrow> outcome P (rq, rp) = Inl InvalidCaptchaException"
  by (cases rq) (auto simp: invalid_token_def outcome_def classify_def split: reply.splits)

lemma fetch_while_new_tokens:
  assumes bad: "\<forall>h. \<forall>tk\<in>set bad. invalid_token (R h (request_of sid ymob tk))"
    and good: "\<forall>h. outcome P (request_of sid ymob good, R h (request_of sid ymob good)) = Inr r"
  shows "pool st = bad @ good # rest \<Longrightarrow> length bad < fuel \<Longrightarrow>
    \<exists>st'. fetch_while fuel R P qs sid ymob tok False st = (Some (End Added), st')
      \<and> results st' = results st @ [r] \<and> pool st' = rest
      \<and> map fst (calls st') = map fst (calls st) @ map (request_of sid ymob) (bad @ [good])"
  using bad
proof (induction bad arbitrary: tok st fuel)
  case Nil
  then obtain n where fuel: "fuel = Suc n"
    by (cases fuel) auto
  obtain h tok1 st1 where a: "attempt R P qs sid ymob tok False st = (h, tok1, st1)"
    by (metis surj_pair)
  have nb: "False \<or> pool st \<noteq> []"
    using Nil.prems by simp
  from attempt_facts[OF a nb] obtain c where
    c: "c = ((sid, ymob, fst tok1, snd tok1), R (map fst (calls st)) (sid, ymob, fst tok1, snd tok1))"
    and f: "calls st1 = calls st @ [c]" "h = decision (outcome P c)"
      "results st1 = results st @ added (outcome P c)" "pool st = tok1 # pool st1"
    by auto
  have t: "tok1 = good" "pool st1 = rest"
    using f(4) Nil.prems by simp_all
  have o: "outcome P c = Inr r"
    using good c t by (simp add: request_of_def)
  have "fetch_while fuel R P qs sid ymob tok False st = (Some (End Added), st1)"
    using a f(2) o by (simp add: fuel decision_def)
  then show ?case
    using f(1,3) t o c by (simp add: added_def request_of_def)
next
  case (Cons b bad)
  then obtain n where fuel: "fuel = Suc n" "length bad < n"
    by (cases fuel) auto
  obtain h tok1 st1 where a: "attempt R P qs sid ymob tok False st = (h, tok1, st1)"
    by (metis surj_pair)
  have nb: "False \<or> pool st \<noteq> []"
    using Cons.prems by simp
  from attempt_facts[OF a nb] obtain c where
    c: "c = ((sid, ymob, fst tok1, snd tok1), R (map fst (calls st)) (sid, ymob, fst tok1, snd tok1))"
    and f: "calls st1 = calls st @ [c]" "h = decision (outcome P c)"
      "results st1 = results st @ added (outcome P c)" "pool st = tok1 # pool st1"
    by auto
  have t: "tok1 = b" "pool st1 = bad @ good # rest"
    using f(4) Cons.prems by simp_all
  have "invalid_token (R (map fst (calls st)) (request_of sid ymob b))"
    using Cons.prems by simp
  then have o: "outcome P c = Inl InvalidCaptchaException"
    using c t invalid_token_outcome[of _ P] by (simp add: request_of_def)
  then have h: "h = Continue False"
    using f(2) by (simp add: decision_def)
  have bad': "\<forall>h. \<forall>tk\<in>set bad. invalid_token (R h (request_of sid ymob tk))"
    using Cons.prems by simp
  from Cons.IH[OF t(2) fuel(2) bad', of tok1] obtain st' where
    s: "fetch_while n R P qs sid ymob tok1 False st1 = (Some (End Added), st')"
      "results st' = results st1 @ [r]" "pool st' = rest"
      "map fst (calls st') = map fst (calls st1) @ map (request_of sid ymob) (bad @ [good])"
    by blast
  have "fetch_while fuel R P qs sid ymob tok False st = (Some (End Added), st')"
    using a h s(1) by (simp add: fuel)
  then show ?case
    using s(2,3,4) f(1,3) o c t by (simp add: added_def request_of_def)
qed

lemma fetch_while_held_token:
  assumes bad: "\<forall>h. \<forall>tk\<in>set bad. invalid_token (R h (request_of sid ymob tk))"
    and good: "\<forall>h. outcome P (request_of sid ymob good, R h (request_of sid ymob good)) = Inr r"
    and p: "tok # pool st = bad @ good # rest" and fuel: "length bad < fuel"
  shows "\<exists>st'. fetch_while fuel R P qs sid ymob tok True st = (Some (End Added), st')
      \<and> results st' = results st @ [r] \<and> pool st' = rest
      \<and> map fst (calls st') = map fst (calls st) @ map (request_of sid ymob) (bad @ [good])"
proof -
  obtain n where n: "fuel = Suc n" "length bad \<le> n"
    using fuel by (cases fuel) auto
  obtain h tok1 st1 where a: "attempt R P qs sid ymob tok True st = (h, tok1, st1)"
    by (metis surj_pair)
  have nb: "True \<or> pool st \<noteq> []"
    by simp
  from attempt_facts[OF a nb] obtain c where
    c: "c = ((sid, ymob, fst tok1, snd tok1), R (map fst (calls st)) (sid, ymob, fst tok1, snd tok1))"
    and f: "calls st1 = calls st @ [c]" "h = decision (outcome P c)"
      "results st1 = results st @ added (outcome P c)" "tok1 = tok" "pool st1 = pool st"
    by auto
  show ?thesis
  proof (cases bad)
    case Nil
    then have t: "tok = good" "pool st = rest"
      using p by simp_all
    have o: "outcome P c = Inr r"
      using good c t f(4) by (simp add: request_of_def)
    have "fetch_while fuel R P qs sid ymob tok True st = (Some (End Added), st1)"
      using a f(2) o by (simp add: n decision_def)
    then show ?thesis
      using f(1,3,4,5) t o c Nil by (simp add: added_def request_of_def)
  next
    case (Cons b bad')
    then have t: "tok = b" "pool st1 = bad' @ good # rest"
      using p f(5) by simp_all
    have "invalid_token (R (map fst (calls st)) (request_of sid ymob b))"
      using bad Cons by simp
    then have o: "outcome P c = Inl InvalidCaptchaException"
      using c t f(4) invalid_token_outcome[of _ P] by (simp add: request_of_def)
    then have h: "h = Continue False"
      using f(2) by (simp add: decision_def)
    have bad': "\<forall>h. \<forall>tk\<in>set bad'. invalid_token (R h (request_of sid ymob tk))"
      using bad Cons by simp
    have l: "length bad' < n"
      using n(2) Cons by simp
    from fetch_while_new_tokens[OF bad' good t(2) l, of qs tok1] obtain st' where
      s: "fetch_while n R P qs sid ymob tok1 False st1 = (Some (End Added), st')"
        "results st' = results st1 @ [r]" "pool st' = rest"
        "map fst (calls st') = map fst (calls st1) @ map (request_of sid ymob) (bad' @ [good])"
      by blast
    have "fetch_while fuel R P qs sid ymob tok True st = (Some (End Added), st')"
      using a h s(1) by (simp add: n)
    then show ?thesis
      using s(2,3,4) f(1,3,4) o c t Cons by (simp add: added_def request_of_def)
  qed
qed

lemma token_rejected_decision: "token_rejected P c \<longleftrightarrow> decision (outcome P c) = Continue False"
  by (cases "outcome P c") (auto simp: token_rejected_def decision_def)

lemma invalid_token_rejected: "invalid_token (snd c) \<Longrightarrow> token_rejected P c"
  using invalid_token_outcome[of "snd c" P "fst c"] by (simp add: token_rejected_def)

lemma tokens_after_append:
  "tokens_after P (a @ b) toks =
     (case tokens_after P a toks of None \<Rightarrow> None | Some toks' \<Rightarrow> tokens_after P b toks')"
proof (induction a arbitrary: toks)
  case Nil
  then show ?case by simp
next
  case (Cons c a)
  then show ?case by (cases toks) simp_all
qed

lemma same_key_retried_append:
  "same_key_retried P (a @ b) \<longleftrightarrow>
     same_key_retried P a \<and> same_key_retried P b
     \<and> (a \<noteq> [] \<and> b \<noteq> [] \<and> token_rejected P (last a) \<longrightarrow> qkey (hd b) = qkey (last a))"
proof (induction P a rule: same_key_retried.induct)
  case 1
  then show ?case by simp
next
  case (2 c)
  then show ?case by (cases b) auto
next
  case (3 c d cs)
  then show ?case by auto
qed

lemma same_key_all:
  "\<forall>c\<in>set cs. qkey c = k \<Longrightarrow> same_key_retried P cs"
  by (induction P cs rule: same_key_retried.induct) auto

lemma same_key_retried_nth:
  "same_key_retried P cs \<Longrightarrow> Suc i < length cs \<Longrightarrow> token_rejected P (cs ! i)
   \<Longrightarrow> qkey (cs ! Suc i) = qkey (cs ! i)"
proof (induction P cs arbitrary: i rule: same_key_retried.induct)
  case 1
  then show ?case by simp
next
  case (2 c)
  then show ?case by simp
next
  case (3 c d cs)
  then show ?case by (cases i) auto
qed

lemma tokens_after_in:
  "tokens_after P cs toks = Some left \<Longrightarrow> c \<in> set cs \<Longrightarrow> token_of c \<in> set toks"
proof (induction cs arbitrary: toks)
  case Nil
  then show ?case by simp
next
  case (Cons d cs)
  obtain tok ts where t: "toks = tok # ts"
    using Cons.prems by (cases toks) auto
  have d: "token_of d = tok" and
    r: "tokens_after P cs (if token_rejected P d then ts else tok # ts) = Some left"
    using Cons.prems(1) unfolding t by (auto split: if_splits)
  show ?case
  proof (cases "c = d")
    case True
    then show ?thesis using d t by simp
  next
    case False
    then have "c \<in> set cs"
      using Cons.prems(2) by simp
    from Cons.IH[OF r this] show ?thesis
      unfolding t by (auto split: if_splits)
  qed
qed

lemma tokens_after_not_reused:
  "tokens_after P cs toks = Some left \<Longrightarrow> distinct toks \<Longrightarrow> i < j \<Longrightarrow> j < length cs
   \<Longrightarrow> token_rejected P (cs ! i) \<Longrightarrow> token_of (cs ! j) \<noteq> token_of (cs ! i)"
proof (induction cs arbitrary: toks i j)
  case Nil
  then show ?case by simp
next
  case (Cons d cs)
  obtain tok ts where t: "toks = tok # ts"
    using Cons.prems by (cases toks) auto
  have d: "token_of d = tok" and
    r: "tokens_after P cs (if token_rejected P d then ts else tok # ts) = Some left"
    using Cons.prems(1) unfolding t by (auto split: if_splits)
  obtain j' where j: "j = Suc j'" "j' < length cs"
    using Cons.prems(3,4) by (cases j) auto
  show ?case
  proof (cases i)
    case 0
    then have rej: "token_rejected P d"
      using Cons.prems(5) by simp
    then have "tokens_after P cs ts = Some left"
      using r by simp
    then have "token_of (cs ! j') \<in> set ts"
      using j(2) by (intro tokens_after_in[of P cs ts left]) simp_all
    moreover have "tok \<notin> set ts"
      using Cons.prems(2) t by simp
    ultimately show ?thesis
      using 0 j d by auto
  next
    case (Suc i')
    have dd: "distinct (if token_rejected P d then ts else tok # ts)"
      using Cons.prems(2) t by simp
    have "token_of (cs ! j') \<noteq> token_of (cs ! i')"
      using Cons.prems(3,5) j Suc by (intro Cons.IH[OF r dd]) simp_all
    then show ?thesis
      using Suc j by simp
  qed
qed

lemma fetch_while_tokens:
  "fetch_while fuel R P qs sid ymob tok v st = (x, st') \<Longrightarrow>
   \<exists>new kept. calls st' = calls st @ new
     \<and> tokens_after P new ((if v then [tok] else []) @ pool st) = Some (kept @ pool st')
     \<and> length kept \<le> 1
     \<and> (\<forall>tok'. x = Some (Skip tok') \<longrightarrow> kept = [tok'])
     \<and> (x = Some (End Blocked) \<longrightarrow> pool st' = [])
     \<and> (x = None \<longrightarrow> length new = fuel)
     \<and> (new \<noteq> [] \<and> token_rejected P (last new) \<longrightarrow> kept = [] \<and> (x = None \<or> x = Some (End Blocked)))
     \<and> (\<forall>c\<in>set new. qkey c = (sid, ymob))"
proof (induction fuel arbitrary: tok v st)
  case 0
  then have "x = None" "st' = st"
    by simp_all
  then show ?case
    by (intro exI[of _ "[]"] exI[of _ "if v then [tok] else []"]) simp
next
  case (Suc fuel)
  obtain h tok1 st1 where a: "attempt R P qs sid ymob tok v st = (h, tok1, st1)"
    by (metis surj_pair)
  show ?case
  proof (cases "v \<or> pool st \<noteq> []")
    case False
    then have "attempt R P qs sid ymob tok v st = (Return Blocked, tok, st)"
      by (simp add: attempt_blocked)
    then have "x = Some (End Blocked)" "st' = st"
      using Suc.prems by simp_all
    then show ?thesis
      using False by (intro exI[of _ "[]"]) simp
  next
    case True
    from attempt_facts[OF a True] obtain c where
      c: "c = ((sid, ymob, fst tok1, snd tok1), R (map fst (calls st)) (sid, ymob, fst tok1, snd tok1))"
      and cs: "calls st1 = calls st @ [c]"
      and h: "h = decision (outcome P c)"
      and tk: "if v then tok1 = tok \<and> pool st1 = pool st else pool st = tok1 # pool st1"
      by blast
    have k: "qkey c = (sid, ymob)"
      by (simp add: c qkey_def)
    have tc: "token_of c = tok1"
      by (simp add: c token_of_def)
    have s: "(if v then [tok] else []) @ pool st = tok1 # pool st1"
      using tk by (auto split: if_splits)
    have one: "tokens_after P [c] ((if v then [tok] else []) @ pool st) =
        Some ((if token_rejected P c then [] else [tok1]) @ pool st1)"
      unfolding s by (simp add: tc)
    show ?thesis
    proof (cases h)
      case (Return e)
      then have xs: "x = Some (End e)" "st' = st1"
        using Suc.prems a by simp_all
      have nb: "e \<noteq> Blocked"
        using Return h decision_not_Blocked by metis
      have nr: "\<not> token_rejected P c"
        using Return h by (simp add: token_rejected_decision)
      show ?thesis
        using cs one nr nb k xs by (intro exI[of _ "[c]"] exI[of _ "[tok1]"]) simp
    next
      case SetSkip
      then have xs: "x = Some (Skip tok1)" "st' = st1"
        using Suc.prems a by simp_all
      have nr: "\<not> token_rejected P c"
        using SetSkip h by (simp add: token_rejected_decision)
      show ?thesis
        using cs one nr k xs by (intro exI[of _ "[c]"] exI[of _ "[tok1]"]) simp
    next
      case (Continue v')
      then have r: "fetch_while fuel R P qs sid ymob tok1 v' st1 = (x, st')"
        using Suc.prems a by simp
      have v': "v' \<longleftrightarrow> \<not> token_rejected P c"
        using Continue h by (auto simp: token_rejected_decision)
      from Suc.IH[OF r] obtain new kept where
        n: "calls st' = calls st1 @ new"
          "tokens_after P new ((if v' then [tok1] else []) @ pool st1) = Some (kept @ pool st')"
          "length kept \<le> 1"
          "\<forall>tok'. x = Some (Skip tok') \<longrightarrow> kept = [tok']"
          "x = Some (End Blocked) \<longrightarrow> pool st' = []"
          "x = None \<longrightarrow> length new = fuel"
          "new \<noteq> [] \<and> token_rejected P (last new) \<longrightarrow> kept = [] \<and> (x = None \<or> x = Some (End Blocked))"
          "\<forall>c\<in>set new. qkey c = (sid, ymob)"
        by blast
      have st: "(if token_rejected P c then [] else [tok1]) @ pool st1 = (if v' then [tok1] else []) @ pool st1"
        using v' by simp
      have ta: "tokens_after P (c # new) ((if v then [tok] else []) @ pool st) = Some (kept @ pool st')"
        using tokens_after_append[of P "[c]" new "(if v then [tok] else []) @ pool st"] n(2)
        unfolding one st by simp
      have e0: "new = [] \<Longrightarrow> fuel = 0 \<or> x = Some (End Blocked)"
      proof -
        assume "new = []"
        show ?thesis
        proof (cases fuel)
          case 0
          then show ?thesis by simp
        next
          case (Suc m)
          obtain h2 tok2 st2 where a2: "attempt R P qs sid ymob tok1 v' st1 = (h2, tok2, st2)"
            by (metis surj_pair)
          show ?thesis
          proof (cases "v' \<or> pool st1 \<noteq> []")
            case False
            then have "attempt R P qs sid ymob tok1 v' st1 = (Return Blocked, tok1, st1)"
              by (simp add: attempt_blocked)
            then show ?thesis
              using r Suc by simp
          next
            case True
            from attempt_facts[OF a2 True] obtain c2 where c2: "calls st2 = calls st1 @ [c2]"
              by blast
            obtain x2 st3 where "fetch_while (Suc m) R P qs sid ymob tok1 v' st1 = (x2, st3)"
              by (metis surj_pair)
            have "\<exists>more. calls st' = calls st2 @ more"
            proof (cases h2)
              case (Return e2)
              then have "st' = st2"
                using r Suc a2 by simp
              then show ?thesis by simp
            next
              case SetSkip
              then have "st' = st2"
                using r Suc a2 by simp
              then show ?thesis by simp
            next
              case (Continue v2)
              then have "fetch_while m R P qs sid ymob tok2 v2 st2 = (x, st')"
                using r Suc a2 by simp
              from fetch_while_trace[OF this] show ?thesis
                by blast
            qed
            then show ?thesis
              using n(1) c2 \<open>new = []\<close> by auto
          qed
        qed
      qed
      have lastc: "new = [] \<and> token_rejected P c \<longrightarrow> kept = [] \<and> (x = None \<or> x = Some (End Blocked))"
      proof (intro impI)
        assume as: "new = [] \<and> token_rejected P c"
        then have "v' = False"
          using v' by simp
        then have kp: "kept @ pool st' = pool st1"
          using n(2) as by simp
        have "calls st' = calls st1"
          using n(1) as by simp
        have xx: "x = None \<or> x = Some (End Blocked)"
        proof (cases fuel)
          case 0
          then show ?thesis using r by simp
        next
          case (Suc m)
          then show ?thesis using e0 as by simp
        qed
        have "kept = []"
        proof (cases fuel)
          case 0
          then have "st' = st1" using r by simp
          then show ?thesis using kp by simp
        next
          case (Suc m)
          then have "x = Some (End Blocked)"
            using e0 as by simp
          then have "pool st' = []"
            using n(5) by simp
          moreover have "pool st1 = []"
          proof (rule ccontr)
            assume ne: "pool st1 \<noteq> []"
            obtain h2 tok2 st2 where a2: "attempt R P qs sid ymob tok1 False st1 = (h2, tok2, st2)"
              by (metis surj_pair)
            have t2: "False \<or> pool st1 \<noteq> []"
              using ne by simp
            from attempt_facts[OF a2 t2] obtain c2 where c2: "calls st2 = calls st1 @ [c2]"
              by blast
            have "\<exists>more. calls st' = calls st2 @ more"
            proof (cases h2)
              case (Return e2)
              then have "st' = st2"
                using r Suc a2 \<open>v' = False\<close> by simp
              then show ?thesis by simp
            next
              case SetSkip
              then have "st' = st2"
                using r Suc a2 \<open>v' = False\<close> by simp
              then show ?thesis by simp
            next
              case (Continue v2)
              then have "fetch_while m R P qs sid ymob tok2 v2 st2 = (x, st')"
                using r Suc a2 \<open>v' = False\<close> by simp
              from fetch_while_trace[OF this] show ?thesis
                by blast
            qed
            then show False
              using c2 \<open>calls st' = calls st1\<close> by auto
          qed
          ultimately show ?thesis
            using kp by simp
        qed
        then show "kept = [] \<and> (x = None \<or> x = Some (End Blocked))"
          using xx by simp
      qed
      have lst: "token_rejected P (last (c # new)) \<longrightarrow> kept = [] \<and> (x = None \<or> x = Some (End Blocked))"
        using lastc n(7) by (cases new) auto
      show ?thesis
        using n(1,3,4,5,6,8) cs ta k lst by (intro exI[of _ "c # new"] exI[of _ kept]) simp
    qed
  qed
qed

lemma fetch_for_tokens:
  "fetch_for fuel R P qs items q_sid tok st = (e, st') \<Longrightarrow>
   \<exists>new kept. calls st' = calls st @ new
     \<and> tokens_after P new (tok # pool st) = Some (kept @ pool st')
     \<and> length kept \<le> 1
     \<and> same_key_retried P new
     \<and> (new \<noteq> [] \<and> token_rejected P (last new) \<longrightarrow> kept = [] \<and> (e = None \<or> e = Some Blocked))
     \<and> (e = Some Blocked \<longrightarrow> pool st' = [])
     \<and> (e = None \<longrightarrow> fuel \<le> length new)"
proof (induction items arbitrary: q_sid tok st)
  case Nil
  then have "e = Some NoValidYMOB" "calls st' = calls st" "pool st' = pool st"
    by (auto simp: logger_def)
  then show ?case
    by (intro exI[of _ "[]"] exI[of _ "[tok]"]) simp
next
  case (Cons q rest)
  obtain sid ymob where q: "q = (sid, ymob)"
    by (cases q)
  define st0 where "st0 = advance qs rest st"
  have s0: "calls st0 = calls st" "pool st0 = pool st"
    by (simp_all add: st0_def advance_fields)
  obtain x st1 where w: "fetch_while fuel R P qs sid ymob tok True st0 = (x, st1)"
    by (metis surj_pair)
  from fetch_while_tokens[OF w] obtain new1 kept1 where
    n1: "calls st1 = calls st @ new1"
      "tokens_after P new1 (tok # pool st) = Some (kept1 @ pool st1)"
      "length kept1 \<le> 1"
      "\<forall>tok'. x = Some (Skip tok') \<longrightarrow> kept1 = [tok']"
      "x = Some (End Blocked) \<longrightarrow> pool st1 = []"
      "x = None \<longrightarrow> length new1 = fuel"
      "new1 \<noteq> [] \<and> token_rejected P (last new1) \<longrightarrow> kept1 = [] \<and> (x = None \<or> x = Some (End Blocked))"
      "\<forall>c\<in>set new1. qkey c = (sid, ymob)"
    unfolding s0 by auto
  have sk1: "same_key_retried P new1"
    using n1(8) by (rule same_key_all)
  show ?case
  proof (cases x)
    case None
    then have "e = None" "st' = st1"
      using Cons.prems w by (simp_all add: q st0_def)
    then show ?thesis
      using n1 sk1 None by (intro exI[of _ new1] exI[of _ kept1]) simp
  next
    case (Some y)
    show ?thesis
    proof (cases y)
      case (End e1)
      then have "e = Some e1" "st' = st1"
        using Cons.prems w Some by (simp_all add: q st0_def)
      then show ?thesis
        using n1 sk1 Some End by (intro exI[of _ new1] exI[of _ kept1]) simp
    next
      case (Skip tok')
      then have r: "fetch_for fuel R P qs rest
          (if q_sid = None \<or> q_sid = Some [] then Some sid else q_sid) tok' st1 = (e, st')"
        using Cons.prems w Some by (simp add: q st0_def Let_def)
      have k1: "kept1 = [tok']"
        using n1(4) Some Skip by simp
      have nr: "new1 \<noteq> [] \<longrightarrow> \<not> token_rejected P (last new1)"
        using n1(7) Some Skip by auto
      from Cons.IH[OF r] obtain new2 kept where
        n2: "calls st' = calls st1 @ new2"
          "tokens_after P new2 (tok' # pool st1) = Some (kept @ pool st')"
          "length kept \<le> 1"
          "same_key_retried P new2"
          "new2 \<noteq> [] \<and> token_rejected P (last new2) \<longrightarrow> kept = [] \<and> (e = None \<or> e = Some Blocked)"
          "e = Some Blocked \<longrightarrow> pool st' = []"
          "e = None \<longrightarrow> fuel \<le> length new2"
        by blast
      have ta: "tokens_after P (new1 @ new2) (tok # pool st) = Some (kept @ pool st')"
        using n1(2) n2(2) by (simp add: tokens_after_append k1)
      have sk: "same_key_retried P (new1 @ new2)"
        using sk1 n2(4) nr by (auto simp: same_key_retried_append)
      have lst: "new1 @ new2 \<noteq> [] \<and> token_rejected P (last (new1 @ new2))
          \<longrightarrow> kept = [] \<and> (e = None \<or> e = Some Blocked)"
      proof (cases "new2 = []")
        case True
        then have "kept @ pool st' = tok' # pool st1"
          using n2(2) by simp
        then show ?thesis
          using True nr by auto
      next
        case False
        then show ?thesis
          using n2(5) by simp
      qed
      have fl: "e = None \<longrightarrow> fuel \<le> length (new1 @ new2)"
        using n2(7) by auto
      show ?thesis
        using n1(1) n2(1,3,6) ta sk lst fl
        by (intro exI[of _ "new1 @ new2"] exI[of _ kept]) simp
    qed
  qed
qed

lemma invalid_token_scenario:
  assumes run: "running st" and items: "items_of qs st = (sid, ymob) # others"
    and p: "pool st = bad @ good # rest"
    and bad: "\<forall>h. \<forall>tk\<in>set bad. invalid_token (R h (request_of sid ymob tk))"
    and good: "\<forall>h. outcome P (request_of sid ymob good, R h (request_of sid ymob good)) = Inr r"
    and fuel: "length bad < fuel"
  shows "\<exists>st'. fetch fuel R P qs st = (Some Added, st')
      \<and> results st' = results st @ [r] \<and> pool st' = rest
      \<and> map fst (calls st') = map fst (calls st) @ map (request_of sid ymob) (bad @ [good])"
proof -
  have "pool st \<noteq> []"
    using p by simp
  then obtain tok tl where pl: "pool st = tok # tl"
    by (meson list.exhaust)
  define st1 where "st1 = st\<lparr>pool := tl\<rparr>"
  define st2 where "st2 = advance qs others st1"
  have i: "items_of qs st1 = (sid, ymob) # others"
    using items by (simp add: items_of_def st1_def split: query_set.splits)
  have f: "fetch fuel R P qs st = fetch_for fuel R P qs ((sid, ymob) # others) None tok st1"
    using run pl i by (simp add: fetch_def get_captcha_result_def st1_def)
  have s2: "pool st2 = tl" "calls st2 = calls st" "results st2 = results st"
    by (simp_all add: st2_def advance_fields st1_def)
  have p2: "tok # pool st2 = bad @ good # rest"
    using p pl s2 by simp
  from fetch_while_held_token[OF bad good p2 fuel, of qs] obtain st' where
    s: "fetch_while fuel R P qs sid ymob tok True st2 = (Some (End Added), st')"
      "results st' = results st2 @ [r]" "pool st' = rest"
      "map fst (calls st') = map fst (calls st2) @ map (request_of sid ymob) (bad @ [good])"
    by blast
  have "fetch fuel R P qs st = (Some Added, st')"
    using f s(1) by (simp add: st2_def)
  then show ?thesis
    using s(2,3,4) s2 by simp
qed

lemma tokens_after_nth:
  "tokens_after P cs toks = Some left \<Longrightarrow> j < length cs \<Longrightarrow>
   length (filter (token_rejected P) (take j cs)) < length toks
   \<and> token_of (cs ! j) = toks ! length (filter (token_rejected P) (take j cs))"
proof (induction cs arbitrary: toks j)
  case Nil
  then show ?case by simp
next
  case (Cons d cs)
  obtain tok ts where t: "toks = tok # ts"
    using Cons.prems by (cases toks) auto
  have d: "token_of d = tok" and
    r: "tokens_after P cs (if token_rejected P d then ts else tok # ts) = Some left"
    using Cons.prems(1) unfolding t by (auto split: if_splits)
  show ?case
  proof (cases j)
    case 0
    then show ?thesis
      using d t by simp
  next
    case (Suc j')
    then have "j' < length cs"
      using Cons.prems(2) by simp
    from Cons.IH[OF r this] show ?thesis
      unfolding t Suc by (auto split: if_splits)
  qed
qed

lemma tokens_after_left:
  "tokens_after P cs toks = Some left \<Longrightarrow> left = drop (length (filter (token_rejected P) cs)) toks"
proof (induction cs arbitrary: toks)
  case Nil
  then show ?case by simp
next
  case (Cons d cs)
  obtain tok ts where t: "toks = tok # ts"
    using Cons.prems by (cases toks) auto
  have r: "tokens_after P cs (if token_rejected P d then ts else tok # ts) = Some left"
    using Cons.prems(1) unfolding t by (auto split: if_splits)
  from Cons.IH[OF r] show ?case
    unfolding t by (auto split: if_splits)
qed

lemma fetch_tokens:
  assumes f: "fetch fuel R P qs st = (e, st')"
  shows "\<exists>new kept. calls st' = calls st @ new
     \<and> tokens_after P new (pool st) = Some (kept @ pool st')
     \<and> length kept \<le> 1
     \<and> same_key_retried P new
     \<and> (new \<noteq> [] \<and> token_rejected P (last new) \<longrightarrow> kept = [] \<and> (e = None \<or> e = Some Blocked))
     \<and> (e = Some Blocked \<longrightarrow> pool st' = [])
     \<and> (e = None \<longrightarrow> fuel \<le> length new)"
  using f
proof (cases rule: fetch_cases)
  case not_running
  then show ?thesis
    by (intro exI[of _ "[]"] exI[of _ "[]"]) simp
next
  case blocked
  then show ?thesis
    by (intro exI[of _ "[]"] exI[of _ "[]"]) simp
next
  case (run tok st0)
  from fetch_for_tokens[OF run(8)] show ?thesis
    unfolding run(2,3) by blast
qed

text \<open>
  Claim C6. Take any task: any fuel, remote, parser, query set and state, and let \<open>new\<close>
  be the calls the task makes. Every call sends the token then held, the first of the
  tokens that the buffer held at the start and that have not been rejected: a reply of
  invalid token (status -2) rejects the token of its call, which is dropped for good, and
  the next call sends the next token of the buffer; after any other reply the token is
  kept, also from one key to the next. So the token of a call is the one the buffer held
  at the position that counts the rejections before the call. What is left of these
  tokens at the end is the token still held, if any, and the buffer as the task leaves
  it: no token went back into the buffer. The call after a rejected token is for the same
  key. When the tokens of the buffer are distinct, no later call of the task sends a
  rejected token again. A rejection is the last call only when the task waits on an empty
  buffer, or was still running as the fuel ran out, which takes \<open>fuel\<close> calls at least.
  In particular, when the buffer holds the tokens \<open>bad\<close>, then \<open>good\<close>, then \<open>rest\<close>,
  and the remote answers invalid token whenever the first key is sent with a token of
  \<open>bad\<close> and success when it is sent with \<open>good\<close>, then, given fuel for one pass per
  token, the task ends with the record of that reply appended, having sent that key once
  with each token of \<open>bad\<close> and then with \<open>good\<close>, and the buffer is left with \<open>rest\<close>.
\<close>

theorem invalid_token_retry:
  assumes f: "fetch fuel R P qs st = (e, st')"
  shows "\<exists>new kept. calls st' = calls st @ new
      \<and> (\<forall>c\<in>set new. invalid_token (snd c) \<longrightarrow> token_rejected P c)
      \<and> tokens_after P new (pool st) = Some (kept @ pool st') \<and> length kept \<le> 1
      \<and> kept @ pool st' = drop (length (filter (token_rejected P) new)) (pool st)
      \<and> (\<forall>j<length new.
            length (filter (token_rejected P) (take j new)) < length (pool st)
            \<and> token_of (new ! j) = pool st ! length (filter (token_rejected P) (take j new)))
      \<and> (\<forall>i. Suc i < length new \<and> token_rejected P (new ! i)
            \<longrightarrow> qkey (new ! Suc i) = qkey (new ! i))
      \<and> (distinct (pool st) \<longrightarrow>
            (\<forall>i j. i < j \<and> j < length new \<and> token_rejected P (new ! i)
               \<longrightarrow> token_of (new ! j) \<noteq> token_of (new ! i)))
      \<and> (new \<noteq> [] \<and> token_rejected P (last new)
            \<longrightarrow> kept = [] \<and> (e = None \<or> e = Some Blocked))
      \<and> (e = Some Blocked \<longrightarrow> pool st' = [])
      \<and> (e = None \<longrightarrow> fuel \<le> length new)
      \<and> (running st \<and> items_of qs st = (sid, ymob) # others \<and> pool st = bad @ good # rest
           \<and> (\<forall>h. \<forall>tk\<in>set bad. invalid_token (R h (request_of sid ymob tk)))
           \<and> (\<forall>h. outcome P (request_of sid ymob good, R h (request_of sid ymob good)) = Inr r)
           \<and> length bad < fuel
           \<longrightarrow> e = Some Added \<and> results st' = results st @ [r] \<and> pool st' = rest
               \<and> map fst new = map (request_of sid ymob) (bad @ [good]))"
proof -
  from fetch_tokens[OF f] obtain new kept where
    n: "calls st' = calls st @ new"
      "tokens_after P new (pool st) = Some (kept @ pool st')"
      "length kept \<le> 1"
      "same_key_retried P new"
      "new \<noteq> [] \<and> token_rejected P (last new) \<longrightarrow> kept = [] \<and> (e = None \<or> e = Some Blocked)"
      "e = Some Blocked \<longrightarrow> pool st' = []"
      "e = None \<longrightarrow> fuel \<le> length new"
    by blast
  have 1: "\<forall>c\<in>set new. invalid_token (snd c) \<longrightarrow> token_rejected P c"
    using invalid_token_rejected by blast
  have 2: "kept @ pool st' = drop (length (filter (token_rejected P) new)) (pool st)"
    using n(2) by (rule tokens_after_left)
  have 3: "\<forall>j<length new.
      length (filter (token_rejected P) (take j new)) < length (pool st)
      \<and> token_of (new ! j) = pool st ! length (filter (token_rejected P) (take j new))"
    using tokens_after_nth[OF n(2)] by blast
  have 4: "\<forall>i. Suc i < length new \<and> token_rejected P (new ! i)
      \<longrightarrow> qkey (new ! Suc i) = qkey (new ! i)"
    using same_key_retried_nth[OF n(4)] by blast
  have 5: "distinct (pool st) \<longrightarrow>
      (\<forall>i j. i < j \<and> j < length new \<and> token_rejected P (new ! i)
         \<longrightarrow> token_of (new ! j) \<noteq> token_of (new ! i))"
    using tokens_after_not_reused[OF n(2)] by blast
  have 6: "running st \<and> items_of qs st = (sid, ymob) # others \<and> pool st = bad @ good # rest
       \<and> (\<forall>h. \<forall>tk\<in>set bad. invalid_token (R h (request_of sid ymob tk)))
       \<and> (\<forall>h. outcome P (request_of sid ymob good, R h (request_of sid ymob good)) = Inr r)
       \<and> length bad < fuel
       \<longrightarrow> e = Some Added \<and> results st' = results st @ [r] \<and> pool st' = rest
           \<and> map fst new = map (request_of sid ymob) (bad @ [good])"
  proof (intro impI)
    assume a: "running st \<and> items_of qs st = (sid, ymob) # others \<and> pool st = bad @ good # rest
       \<and> (\<forall>h. \<forall>tk\<in>set bad. invalid_token (R h (request_of sid ymob tk)))
       \<and> (\<forall>h. outcome P (request_of sid ymob good, R h (request_of sid ymob good)) = Inr r)
       \<and> length bad < fuel"
    then have a1: "running st" and a2: "items_of qs st = (sid, ymob) # others"
      and a3: "pool st = bad @ good # rest"
      and a4: "\<forall>h. \<forall>tk\<in>set bad. invalid_token (R h (request_of sid ymob tk))"
      and a5: "\<forall>h. outcome P (request_of sid ymob good, R h (request_of sid ymob good)) = Inr r"
      and a6: "length bad < fuel"
      by blast+
    from invalid_token_scenario[OF a1 a2 a3 a4 a5 a6] obtain st'' where
      s: "fetch fuel R P qs st = (Some Added, st'')"
        "results st'' = results st @ [r]" "pool st'' = rest"
        "map fst (calls st'') = map fst (calls st) @ map (request_of sid ymob) (bad @ [good])"
      by blast
    have "e = Some Added" "st'' = st'"
      using s(1) f by simp_all
    then show "e = Some Added \<and> results st' = results st @ [r] \<and> pool st' = rest
        \<and> map fst new = map (request_of sid ymob) (bad @ [good])"
      using s(2,3,4) n(1) by simp
  qed
  show ?thesis
    by (rule exI[of _ new], rule exI[of _ kept], intro conjI)
      (fact n(1) 1 n(2) n(3) 2 3 4 5 n(5) n(6) n(7) 6)+
qed

text \<open>
  The example of the specification: the third token of the sequence is the first valid
  one. And a run where the first token is rejected for the first key, which the remote
  then answers with invalid ymob: the second key is sent with the second token.
\<close>

theorem invalid_token_retry_witness:
  "(\<exists>st'. fetch 3 ex_remote_token ex_parse (Sequence ex_keys)
       (ex_service [(''ab12'', ''t0''), (''cd34'', ''t1''), (''ef56'', ''t2''), (''gh78'', ''t3'')])
     = (Some Added, st')
   \<and> results st' = [''9903''] \<and> pool st' = [(''gh78'', ''t3'')]
   \<and> map fst (calls st') =
       [(''0000000001'', ''9903'', ''ab12'', ''t0''), (''0000000001'', ''9903'', ''cd34'', ''t1''),
        (''0000000001'', ''9903'', ''ef56'', ''t2'')])
   \<and> tokens_after ex_parse
        (calls (snd (fetch 3 ex_remote_token ex_parse (Sequence ex_keys)
           (ex_service [(''ab12'', ''t0''), (''cd34'', ''t1''), (''ef56'', ''t2''), (''gh78'', ''t3'')]))))
        [(''ab12'', ''t0''), (''cd34'', ''t1''), (''ef56'', ''t2''), (''gh78'', ''t3'')]
       = Some [(''ef56'', ''t2''), (''gh78'', ''t3'')]
   \<and> fst (fetch 3 ex_remote_second ex_parse (Sequence ex_keys)
        (ex_service [(''ab12'', ''t0''), (''cd34'', ''t1'')])) = Some Added
   \<and> map fst (calls (snd (fetch 3 ex_remote_second ex_parse (Sequence ex_keys)
        (ex_service [(''ab12'', ''t0''), (''cd34'', ''t1'')])))) =
       [(''0000000001'', ''9903'', ''ab12'', ''t0''), (''0000000001'', ''9903'', ''cd34'', ''t1''),
        (''0000000001'', ''9906'', ''cd34'', ''t1'')]"
proof (intro conjI)
  let ?st = "ex_service [(''ab12'', ''t0''), (''cd34'', ''t1''), (''ef56'', ''t2''), (''gh78'', ''t3'')]"
  obtain e st' where f: "fetch 3 ex_remote_token ex_parse (Sequence ex_keys) ?st = (e, st')"
    by (metis surj_pair)
  have run: "running ?st"
    by (simp add: ex_service_def)
  have items: "items_of (Sequence ex_keys) ?st =
      (''0000000001'', ''9903'') # [(''0000000001'', ''9906''), (''0000000001'', ''9901'')]"
    by (simp add: items_of_def ex_keys_def)
  have p: "pool ?st = [(''ab12'', ''t0''), (''cd34'', ''t1'')] @ (''ef56'', ''t2'') # [(''gh78'', ''t3'')]"
    by (simp add: ex_service_def)
  have bad: "\<forall>h. \<forall>tk\<in>set [(''ab12'', ''t0''), (''cd34'', ''t1'')].
      invalid_token (ex_remote_token h (request_of ''0000000001'' ''9903'' tk))"
    by (simp add: invalid_token_def ex_remote_token_def request_of_def)
  have good: "\<forall>h. outcome ex_parse (request_of ''0000000001'' ''9903'' (''ef56'', ''t2''),
      ex_remote_token h (request_of ''0000000001'' ''9903'' (''ef56'', ''t2''))) = Inr ''9903''"
    by (simp add: outcome_def classify_def ex_remote_token_def request_of_def ex_parse_def)
  have fuel: "length [(''ab12'', ''t0''), (''cd34'', ''t1'')] < (3::nat)"
    by simp
  have c: "calls ?st = []" "results ?st = []"
    by (simp_all add: ex_service_def)
  note a = conjI[OF run conjI[OF items conjI[OF p conjI[OF bad conjI[OF good fuel]]]]]
  from invalid_token_retry[OF f, where sid = "''0000000001''" and ymob = "''9903''"
      and others = "[(''0000000001'', ''9906''), (''0000000001'', ''9901'')]"
      and bad = "[(''ab12'', ''t0''), (''cd34'', ''t1'')]" and good = "(''ef56'', ''t2'')"
      and rest = "[(''gh78'', ''t3'')]" and r = "''9903''"]
  obtain new where
    n: "calls st' = calls ?st @ new"
      "e = Some Added \<and> results st' = results ?st @ [''9903''] \<and> pool st' = [(''gh78'', ''t3'')]
        \<and> map fst new = map (request_of ''0000000001'' ''9903'')
             ([(''ab12'', ''t0''), (''cd34'', ''t1'')] @ [(''ef56'', ''t2'')])"
  proof (elim exE conjE)
    fix new kept
    assume 1: "calls st' = calls ?st @ new"
      and 2: "running ?st \<and> items_of (Sequence ex_keys) ?st =
          (''0000000001'', ''9903'') # [(''0000000001'', ''9906''), (''0000000001'', ''9901'')]
        \<and> pool ?st = [(''ab12'', ''t0''), (''cd34'', ''t1'')] @ (''ef56'', ''t2'') # [(''gh78'', ''t3'')]
        \<and> (\<forall>h. \<forall>tk\<in>set [(''ab12'', ''t0''), (''cd34'', ''t1'')].
              invalid_token (ex_remote_token h (request_of ''0000000001'' ''9903'' tk)))
        \<and> (\<forall>h. outcome ex_parse (request_of ''0000000001'' ''9903'' (''ef56'', ''t2''),
              ex_remote_token h (request_of ''0000000001'' ''9903'' (''ef56'', ''t2''))) = Inr ''9903'')
        \<and> length [(''ab12'', ''t0''), (''cd34'', ''t1'')] < 3
        \<longrightarrow> e = Some Added \<and> results st' = results ?st @ [''9903''] \<and> pool st' = [(''gh78'', ''t3'')]
          \<and> map fst new = map (request_of ''0000000001'' ''9903'')
               ([(''ab12'', ''t0''), (''cd34'', ''t1'')] @ [(''ef56'', ''t2'')])"
    show thesis
      by (rule that[OF 1 mp[OF 2 a]])
  qed
  show "\<exists>st'. fetch 3 ex_remote_token ex_parse (Sequence ex_keys) ?st = (Some Added, st')
     \<and> results st' = [''9903''] \<and> pool st' = [(''gh78'', ''t3'')]
     \<and> map fst (calls st') =
       [(''0000000001'', ''9903'', ''ab12'', ''t0''), (''0000000001'', ''9903'', ''cd34'', ''t1''),
        (''0000000001'', ''9903'', ''ef56'', ''t2'')]"
    using f n by (intro exI[of _ st']) (simp add: c request_of_def)
qed code_simp+

section \<open>Resubmission after a transport failure\<close>

text \<open>
  Claim C7, evaluated. The first call fails in transport; from then on the remote of the
  first run answers success for the key \<open>(sid, 9903)\<close> and invalid secondary key for
  the others. With the query set a generator, the task scheduled again is handed the
  generator the first task has taken \<open>(sid, 9903)\<close> from: it goes on with
  \<open>(sid, 9906)\<close>, never tries \<open>(sid, 9903)\<close> again and ends with no record. With a
  generator of one key and a remote whose every later call succeeds, the second task
  makes no call at all. With the same keys in a tuple the second task starts from the
  first key and one record is appended.
\<close>

theorem resubmitted_generator_resumes:
  "ends_of (run_tasks 5 5 ex_remote_transient ex_parse
      (start [Generator 0] (ex_stopped [(''ab12'', ''t0''), (''cd34'', ''t1'')])))
     = Some [ReAdded, NoValidYMOB]
   \<and> map_option results (final (run_tasks 5 5 ex_remote_transient ex_parse
      (start [Generator 0] (ex_stopped [(''ab12'', ''t0''), (''cd34'', ''t1'')])))) = Some []
   \<and> map_option futures (final (run_tasks 5 5 ex_remote_transient ex_parse
      (start [Generator 0] (ex_stopped [(''ab12'', ''t0''), (''cd34'', ''t1'')]))))
     = Some [Generator 0, Generator 0]
   \<and> map_option (\<lambda>s. map fst (calls s)) (final (run_tasks 5 5 ex_remote_transient ex_parse
      (start [Generator 0] (ex_stopped [(''ab12'', ''t0''), (''cd34'', ''t1'')]))))
     = Some [(''0000000001'', ''9903'', ''ab12'', ''t0''), (''0000000001'', ''9906'', ''cd34'', ''t1''),
             (''0000000001'', ''9901'', ''cd34'', ''t1'')]
   \<and> ends_of (run_tasks 5 5 ex_remote_flaky ex_parse
      (start [Generator 1] (ex_stopped [(''ab12'', ''t0''), (''cd34'', ''t1'')])))
     = Some [ReAdded, NoValidYMOB]
   \<and> map_option results (final (run_tasks 5 5 ex_remote_flaky ex_parse
      (start [Generator 1] (ex_stopped [(''ab12'', ''t0''), (''cd34'', ''t1'')])))) = Some []
   \<and> ends_of (run_tasks 5 5 ex_remote_transient ex_parse
      (start [Sequence ex_keys] (ex_stopped [(''ab12'', ''t0''), (''cd34'', ''t1'')])))
     = Some [ReAdded, Added]
   \<and> map_option results (final (run_tasks 5 5 ex_remote_transient ex_parse
      (start [Sequence ex_keys] (ex_stopped [(''ab12'', ''t0''), (''cd34'', ''t1'')])))) = Some [''9903'']
   \<and> map_option (\<lambda>s. map fst (calls s)) (final (run_tasks 5 5 ex_remote_transient ex_parse
      (start [Sequence ex_keys] (ex_stopped [(''ab12'', ''t0''), (''cd34'', ''t1'')]))))
     = Some [(''0000000001'', ''9903'', ''ab12'', ''t0''), (''0000000001'', ''9903'', ''cd34'', ''t1'')]"
proof (intro conjI)
qed code_simp+

section \<open>The capacity of the token buffer\<close>

text \<open>
  Claim C2, evaluated. A \<open>SouthCaptchaService\<close> or \<open>SouthEnrollmentCaptchaService\<close>
  built with capacity 5 has a buffer of capacity 40, and seven tokens produced with none
  consumed are all in the buffer, two more than 5 + 1. The base class built with
  capacity 5 keeps the buffer at 5.
\<close>

theorem configured_capacity_ignored:
  "maxsize (captcha_result_pool (SouthCaptchaService_init 1 5)) = 40
   \<and> qsize (captcha_result_pool (producers ex_tokens (captcha_start (SouthCaptchaService_init 1 5)))) = 7
   \<and> maxsize (captcha_result_pool (SouthEnrollmentCaptchaService_init 1 5)) = 40
   \<and> qsize (captcha_result_pool (producers ex_tokens (captcha_start (SouthEnrollmentCaptchaService_init 1 5)))) = 7
   \<and> qsize (captcha_result_pool (producers ex_tokens (captcha_start (AbstractCaptchaService_init 1 5)))) = 5"
proof (intro conjI)
qed code_simp+

text \<open>The buffer of any service never exceeds the capacity of its queue, when that is positive.\<close>

lemma put_bounded:
  "0 < maxsize q \<Longrightarrow> int (qsize q) \<le> maxsize q \<Longrightarrow> put item q = Some q' \<Longrightarrow>
   int (qsize q') \<le> maxsize q' \<and> maxsize q' = maxsize q"
  by (auto simp: put_def qsize_def split: if_splits)

lemma producers_bounded:
  "0 < maxsize (captcha_result_pool s) \<Longrightarrow>
   int (qsize (captcha_result_pool s)) \<le> maxsize (captcha_result_pool s) \<Longrightarrow>
   int (qsize (captcha_result_pool (producers toks s))) \<le> maxsize (captcha_result_pool s)
   \<and> maxsize (captcha_result_pool (producers toks s)) = maxsize (captcha_result_pool s)"
proof (induction toks arbitrary: s)
  case Nil
  then show ?case by simp
next
  case (Cons tok toks)
  show ?case
  proof (cases "add_captcha_to_pool tok s")
    case (Inserted s')
    then obtain q where q: "put tok (captcha_result_pool s) = Some q" "s' = s\<lparr>captcha_result_pool := q\<rparr>"
      by (auto simp: add_captcha_to_pool_def split: if_splits option.splits)
    from put_bounded[OF Cons.prems q(1)] have
      "int (qsize (captcha_result_pool s')) \<le> maxsize (captcha_result_pool s')"
      "maxsize (captcha_result_pool s') = maxsize (captcha_result_pool s)"
      using q(2) by simp_all
    then show ?thesis
      using Cons.IH[of s'] Cons.prems Inserted by simp
  qed (use Cons in simp_all)
qed

section \<open>The results accessor returns a deep copy\<close>

lemma deepcopy_items_ok:
  assumes "\<forall>x\<in>set xs. x < n \<and> is_record s x"
    and "n \<le> length (heap s)"
    and "\<forall>x\<in>set xs. \<forall>y. memo x = Some y \<longrightarrow> n \<le> y \<and> y < length (heap s) \<and> heap s ! y = heap s ! x"
  shows "\<exists>ys memo' s' ext. deepcopy_items xs memo s = Some (ys, memo', s')
      \<and> heap s' = heap s @ ext \<and> results_ref s' = results_ref s
      \<and> length ys = length xs
      \<and> (\<forall>y\<in>set ys. n \<le> y \<and> y < length (heap s'))
      \<and> map (\<lambda>y. heap s' ! y) ys = map (\<lambda>x. heap s ! x) xs"
  using assms
proof (induction xs arbitrary: memo s)
  case Nil
  then show ?case by simp
next
  case (Cons x xs)
  have x: "x < n" "is_record s x"
    using Cons.prems(1) by simp_all
  show ?case
  proof (cases "memo x")
    case (Some y)
    then have y: "n \<le> y" "y < length (heap s)" "heap s ! y = heap s ! x"
      using Cons.prems(3) by simp_all
    from Cons.IH[of s memo] Cons.prems obtain ys memo' s' ext where
      r: "deepcopy_items xs memo s = Some (ys, memo', s')" "heap s' = heap s @ ext"
        "results_ref s' = results_ref s" "length ys = length xs"
        "\<forall>y\<in>set ys. n \<le> y \<and> y < length (heap s')"
        "map (\<lambda>y. heap s' ! y) ys = map (\<lambda>x. heap s ! x) xs"
      by auto
    have "heap s' ! y = heap s ! x" "y < length (heap s')"
      using r(2) y by (simp_all add: nth_append)
    then show ?thesis
      using r y(1) Some
      by (intro exI[of _ "y # ys"] exI[of _ memo'] exI[of _ s'] exI[of _ ext]) simp
  next
    case None
    obtain d where d: "lookup s x = Some (DictObj d)"
      using x(2) by (auto simp: is_record_def split: option.splits object.splits)
    then have hx: "x < length (heap s)" "heap s ! x = DictObj d"
      by (auto simp: lookup_def split: if_splits)
    define y where "y = length (heap s)"
    define s1 where "s1 = s\<lparr>heap := heap s @ [DictObj d]\<rparr>"
    have a: "alloc (DictObj d) s = (y, s1)"
      by (simp add: alloc_def y_def s1_def)
    have p1: "\<forall>x\<in>set xs. x < n \<and> is_record s1 x"
      using Cons.prems(1,2)
      by (auto simp: is_record_def lookup_def s1_def nth_append split: option.splits object.splits)
    have p2: "n \<le> length (heap s1)"
      using Cons.prems(2) by (simp add: s1_def)
    have p3: "\<forall>z\<in>set xs. \<forall>w. (memo(x \<mapsto> y)) z = Some w \<longrightarrow>
        n \<le> w \<and> w < length (heap s1) \<and> heap s1 ! w = heap s1 ! z"
    proof (intro ballI allI impI)
      fix z w assume z: "z \<in> set xs" and m: "(memo(x \<mapsto> y)) z = Some w"
      have zn: "z < length (heap s)"
        using Cons.prems(1,2) z by auto
      show "n \<le> w \<and> w < length (heap s1) \<and> heap s1 ! w = heap s1 ! z"
      proof (cases "z = x")
        case True
        then have "w = y" using m by simp
        then show ?thesis
          using True Cons.prems(2) hx by (simp add: s1_def y_def nth_append)
      next
        case False
        then have "memo z = Some w" using m by simp
        then have "n \<le> w \<and> w < length (heap s) \<and> heap s ! w = heap s ! z"
          using Cons.prems(3) z by simp
        then show ?thesis
          using zn by (simp add: s1_def nth_append)
      qed
    qed
    from Cons.IH[OF p1 p2 p3] obtain ys memo' s' ext where
      r: "deepcopy_items xs (memo(x \<mapsto> y)) s1 = Some (ys, memo', s')" "heap s' = heap s1 @ ext"
        "results_ref s' = results_ref s1" "length ys = length xs"
        "\<forall>y\<in>set ys. n \<le> y \<and> y < length (heap s')"
        "map (\<lambda>y. heap s' ! y) ys = map (\<lambda>x. heap s1 ! x) xs"
      by blast
    have e: "deepcopy_items (x # xs) memo s = Some (y # ys, memo', s')"
      using None d a r(1) by simp
    have h: "heap s' = heap s @ (DictObj d # ext)"
      using r(2) by (simp add: s1_def)
    have m: "map (\<lambda>x. heap s1 ! x) xs = map (\<lambda>x. heap s ! x) xs"
      using Cons.prems(1,2) by (auto simp: s1_def nth_append)
    have yy: "heap s' ! y = heap s ! x" "n \<le> y" "y < length (heap s')"
      using h hx Cons.prems(2) by (simp_all add: y_def nth_append)
    have rr: "results_ref s' = results_ref s"
      using r(3) by (simp add: s1_def)
    show ?thesis
      using e h rr r(4,5,6) m yy
      by (intro exI[of _ "y # ys"] exI[of _ memo'] exI[of _ s'] exI[of _ "DictObj d # ext"]) simp
  qed
qed

lemma view_agree:
  assumes "lookup t l = lookup s l"
    and "\<And>xs x. lookup s l = Some (ListObj xs) \<Longrightarrow> x \<in> set xs \<Longrightarrow> lookup t x = lookup s x"
  shows "view t l = view s l"
  using assms by (auto simp: view_def split: option.splits object.splits)

lemma deepcopy_ok:
  assumes ok: "sink_ok s"
  shows "\<exists>s' xs ys ext. deepcopy (results_ref s) s = Some (length (heap s), s')
      \<and> lookup s (results_ref s) = Some (ListObj xs)
      \<and> (\<forall>x\<in>set xs. x < length (heap s))
      \<and> heap s' = heap s @ ListObj ys # ext \<and> results_ref s' = results_ref s
      \<and> (\<forall>y\<in>set ys. length (heap s) < y \<and> y < length (heap s'))
      \<and> map (\<lambda>y. heap s' ! y) ys = map (\<lambda>x. heap s ! x) xs"
proof -
  obtain xs where xs: "lookup s (results_ref s) = Some (ListObj xs)" "list_all (is_record s) xs"
    using ok by (auto simp: sink_ok_def split: option.splits object.splits)
  have lt: "\<forall>x\<in>set xs. x < length (heap s)"
    using xs(2) by (auto simp: list_all_iff is_record_def lookup_def split: if_splits)
  have rl: "results_ref s < length (heap s)" "heap s ! results_ref s = ListObj xs"
    using xs(1) by (auto simp: lookup_def split: if_splits)
  define y where "y = length (heap s)"
  define s1 where "s1 = s\<lparr>heap := heap s @ [ListObj []]\<rparr>"
  have a: "alloc (ListObj []) s = (y, s1)"
    by (simp add: alloc_def y_def s1_def)
  have p1: "\<forall>x\<in>set xs. x < Suc y \<and> is_record s1 x"
    using xs(2) lt
    by (auto simp: list_all_iff is_record_def lookup_def s1_def y_def nth_append
        split: option.splits object.splits if_splits)
  have p2: "Suc y \<le> length (heap s1)"
    by (simp add: s1_def y_def)
  have p3: "\<forall>x\<in>set xs. \<forall>w. (Map.empty(results_ref s \<mapsto> y)) x = Some w \<longrightarrow>
      Suc y \<le> w \<and> w < length (heap s1) \<and> heap s1 ! w = heap s1 ! x"
  proof (intro ballI allI impI)
    fix x w assume x: "x \<in> set xs" and m: "(Map.empty(results_ref s \<mapsto> y)) x = Some w"
    then have "x = results_ref s"
      by (auto split: if_splits)
    moreover have "is_record s x"
      using xs(2) x by (simp add: list_all_iff)
    ultimately have False
      using rl by (simp add: is_record_def lookup_def)
    then show "Suc y \<le> w \<and> w < length (heap s1) \<and> heap s1 ! w = heap s1 ! x" ..
  qed
  from deepcopy_items_ok[OF p1 p2 p3] obtain ys memo' s2 ext where
    r: "deepcopy_items xs (Map.empty(results_ref s \<mapsto> y)) s1 = Some (ys, memo', s2)"
      "heap s2 = heap s1 @ ext" "results_ref s2 = results_ref s1" "length ys = length xs"
      "\<forall>w\<in>set ys. Suc y \<le> w \<and> w < length (heap s2)"
      "map (\<lambda>w. heap s2 ! w) ys = map (\<lambda>x. heap s1 ! x) xs"
    by blast
  define s' where "s' = s2\<lparr>heap := (heap s2)[y := ListObj ys]\<rparr>"
  have d: "deepcopy (results_ref s) s = Some (y, s')"
    using xs(1) a r(1) by (simp add: deepcopy_def s'_def)
  have h: "heap s' = heap s @ ListObj ys # ext"
    using r(2) by (simp add: s'_def s1_def y_def list_update_append)
  have m1: "map (\<lambda>x. heap s1 ! x) xs = map (\<lambda>x. heap s ! x) xs"
    using lt by (auto simp: s1_def nth_append)
  have m2: "map (\<lambda>w. heap s' ! w) ys = map (\<lambda>w. heap s2 ! w) ys"
    using r(5) by (auto simp: s'_def)
  have b: "\<forall>w\<in>set ys. length (heap s) < w \<and> w < length (heap s')"
    using r(5) by (auto simp: s'_def y_def)
  have rr: "results_ref s' = results_ref s"
    using r(3) by (simp add: s'_def s1_def)
  show ?thesis
    using d xs(1) lt h rr b m1 m2 r(6) unfolding y_def
    by (intro exI[of _ s'] exI[of _ xs] exI[of _ ys] exI[of _ ext]) simp
qed

text \<open>
  Claim C10. For every sink whose list holds records, \<open>get_result_list()\<close> (with
  \<open>copy=True\<close>) returns a new list that holds, in the same order, new records equal to
  those of the sink, and leaves the sink as it was. Whatever a caller then puts in place
  of the returned list or of any record in it, the sink still holds the same references
  to the same records; and a record appended to the sink afterwards leaves the returned
  list, and every record in it, as returned.
\<close>

theorem get_result_list_deep_copy:
  assumes ok: "sink_ok s"
  shows "\<exists>l s'. get_result_list True s = Some (l, s')
     \<and> results_ref s' = results_ref s
     \<and> view s' (results_ref s) = view s (results_ref s)
     \<and> records_of s' l = records_of s (results_ref s)
     \<and> (\<forall>a\<in>set (l # refs_of s' l). \<forall>ob.
           view (mutate a ob s') (results_ref s) = view s (results_ref s))
     \<and> (\<forall>r s''. sink_add_result r s' = Some s'' \<longrightarrow> view s'' l = view s' l)"
proof -
  from deepcopy_ok[OF ok] obtain s' xs ys ext where
    d: "deepcopy (results_ref s) s = Some (length (heap s), s')"
      "lookup s (results_ref s) = Some (ListObj xs)"
      "\<forall>x\<in>set xs. x < length (heap s)"
      "heap s' = heap s @ ListObj ys # ext" "results_ref s' = results_ref s"
      "\<forall>y\<in>set ys. length (heap s) < y \<and> y < length (heap s')"
      "map (\<lambda>y. heap s' ! y) ys = map (\<lambda>x. heap s ! x) xs"
    by blast
  define l where "l = length (heap s)"
  have g: "get_result_list True s = Some (l, s')"
    using d(1) by (simp add: get_result_list_def l_def)
  have rl: "results_ref s < length (heap s)"
    using d(2) by (auto simp: lookup_def split: if_splits)
  have old: "\<And>a. a < length (heap s) \<Longrightarrow> lookup s' a = lookup s a"
    using d(4) by (simp add: lookup_def nth_append)
  have ll: "lookup s' l = Some (ListObj ys)"
    using d(4) by (simp add: lookup_def l_def nth_append)
  have v1: "view s' (results_ref s) = view s (results_ref s)"
    by (rule view_agree) (use old rl d(2,3) in auto)
  have rs: "refs_of s' l = ys"
    using ll by (simp add: refs_of_def view_def comp_def)
  have "map (\<lambda>y. lookup s' y) ys = map (\<lambda>x. lookup s x) xs"
  proof -
    have "map (\<lambda>y. lookup s' y) ys = map (\<lambda>y. Some (heap s' ! y)) ys"
      using d(6) by (auto simp: lookup_def)
    also have "\<dots> = map Some (map (\<lambda>y. heap s' ! y) ys)"
      by simp
    also have "\<dots> = map Some (map (\<lambda>x. heap s ! x) xs)"
      using d(7) by simp
    also have "\<dots> = map (\<lambda>x. lookup s x) xs"
      using d(3) by (auto simp: lookup_def)
    finally show ?thesis .
  qed
  then have v2: "records_of s' l = records_of s (results_ref s)"
    using ll d(2) by (simp add: records_of_def view_def comp_def)
  have v3: "\<forall>a\<in>set (l # refs_of s' l). \<forall>ob.
           view (mutate a ob s') (results_ref s) = view s (results_ref s)"
  proof (intro ballI allI)
    fix a ob assume "a \<in> set (l # refs_of s' l)"
    then have a: "length (heap s) \<le> a"
      using rs d(6) by (auto simp: l_def)
    have m: "\<And>b. b < length (heap s) \<Longrightarrow> lookup (mutate a ob s') b = lookup s b"
      using a d(4) by (simp add: lookup_def mutate_def nth_append)
    show "view (mutate a ob s') (results_ref s) = view s (results_ref s)"
      by (rule view_agree) (use m rl d(2,3) in auto)
  qed
  have v4: "\<forall>r s''. sink_add_result r s' = Some s'' \<longrightarrow> view s'' l = view s' l"
  proof (intro allI impI)
    fix r s'' assume "sink_add_result r s' = Some s''"
    then obtain zs where s'': "s'' = s'\<lparr>heap := (heap s')[results_ref s := ListObj (zs @ [r])]\<rparr>"
      using d(5) by (auto simp: sink_add_result_def split: option.splits object.splits)
    have m: "\<And>b. length (heap s) \<le> b \<Longrightarrow> lookup s'' b = lookup s' b"
      using rl by (simp add: s'' lookup_def)
    show "view s'' l = view s' l"
      by (rule view_agree) (use m ll d(6) in \<open>auto simp: l_def\<close>)
  qed
  show ?thesis
    using g d(5) v1 v2 v3 v4 by blast
qed

theorem get_result_list_deep_copy_witness:
  "sink_ok ex_sink
   \<and> (\<exists>l s'. get_result_list True ex_sink = Some (l, s')
     \<and> view s' (results_ref ex_sink) = view ex_sink (results_ref ex_sink)
     \<and> records_of s' l = records_of ex_sink (results_ref ex_sink)
     \<and> (\<forall>a\<in>set (l # refs_of s' l). \<forall>ob.
           view (mutate a ob s') (results_ref ex_sink) = view ex_sink (results_ref ex_sink))
     \<and> (\<forall>r s''. sink_add_result r s' = Some s'' \<longrightarrow> view s'' l = view s' l))"
proof -
  have ok: "sink_ok ex_sink"
    by code_simp
  from get_result_list_deep_copy[OF ok] show ?thesis
    using ok by blast
qed

section \<open>Properties of the challenge solver\<close>

subsection \<open>The scanning loops find the maximal runs\<close>

lemma column_step_scan:
  "column_step px w h = scan_step append_to_char_boxes_LR (\<lambda>x. list_all (\<lambda>y. px (x, y) \<noteq> 0) [0..<h]) w"
  unfolding column_step_def scan_step_def by (intro ext) (simp add: Let_def split: prod.splits)

lemma row_step_scan:
  "row_step px h (l, r) =
   scan_step (\<lambda>lst a b. lst @ [(a, b)]) (\<lambda>y. list_all (\<lambda>x. px (x, y) \<noteq> 0) [l..<r]) h"
  unfolding row_step_def scan_step_def by (intro ext) (simp add: Let_def split: prod.splits)

lemma scan_step_searching_empty:
  "blank x \<Longrightarrow> scan_step app blank n (STAGE_SEARCHING_FOR_CHAR, l, boxes) x
     = (STAGE_SEARCHING_FOR_CHAR, l, boxes)"
  by (simp add: scan_step_def)

lemma scan_step_searching_ink:
  "\<not> blank x \<Longrightarrow> scan_step app blank n (STAGE_SEARCHING_FOR_CHAR, l, boxes) x
     = (if x = n - 1 then (STAGE_SEARCHING_FOR_CHAR, x, app boxes x n)
        else (STAGE_PROCESSING_CHAR, x, boxes))"
  by (simp add: scan_step_def)

lemma scan_step_processing_empty:
  "blank x \<Longrightarrow> scan_step app blank n (STAGE_PROCESSING_CHAR, l, boxes) x
     = (STAGE_SEARCHING_FOR_CHAR, l, app boxes l x)"
  by (simp add: scan_step_def)

lemma scan_step_processing_ink:
  "\<not> blank x \<Longrightarrow> scan_step app blank n (STAGE_PROCESSING_CHAR, l, boxes) x
     = (if x = n - 1 then (STAGE_SEARCHING_FOR_CHAR, l, app boxes l n)
        else (STAGE_PROCESSING_CHAR, l, boxes))"
  by (simp add: scan_step_def)

lemma scan_spans:
  assumes app: "\<And>lst a b. app lst a b = lst @ app [] a b"
  shows "n - i = k \<Longrightarrow>
     (\<exists>l'. foldl (scan_step app blank n) (STAGE_SEARCHING_FOR_CHAR, l, boxes) [i..<n]
        = (STAGE_SEARCHING_FOR_CHAR, l', boxes @ boxes_of app (spans i (map (\<lambda>x. \<not> blank x) [i..<n]))))
   \<and> (i < n \<longrightarrow>
       (\<exists>l'. foldl (scan_step app blank n) (STAGE_PROCESSING_CHAR, left, boxes) [i..<n]
          = (STAGE_SEARCHING_FOR_CHAR, l',
             boxes @ app [] left (i + length (takeWhile id (map (\<lambda>x. \<not> blank x) [i..<n])))
               @ boxes_of app (spans (i + length (takeWhile id (map (\<lambda>x. \<not> blank x) [i..<n])))
                                (dropWhile id (map (\<lambda>x. \<not> blank x) [i..<n]))))))"
proof (induction k arbitrary: i l left boxes)
  case 0
  then have "[i..<n] = []" "\<not> i < n"
    by simp_all
  then show ?case
    by (simp add: boxes_of_def)
next
  case (Suc k)
  then have lt: "i < n" and k: "n - Suc i = k"
    by simp_all
  have u: "[i..<n] = i # [Suc i..<n]"
    using lt by (simp add: upt_conv_Cons)
  let ?fl = "map (\<lambda>x. \<not> blank x) [Suc i..<n]"
  note IHS = Suc.IH[OF k, THEN conjunct1]
  note IHP = Suc.IH[OF k, THEN conjunct2]
  show ?case
  proof (cases "blank i")
    case True
    have fl: "map (\<lambda>x. \<not> blank x) [i..<n] = False # ?fl"
      using True by (simp add: u)
    have st: "scan_step app blank n (STAGE_SEARCHING_FOR_CHAR, l, boxes) i
          = (STAGE_SEARCHING_FOR_CHAR, l, boxes)"
      "scan_step app blank n (STAGE_PROCESSING_CHAR, left, boxes) i
          = (STAGE_SEARCHING_FOR_CHAR, left, app boxes left i)"
      using True by (simp_all add: scan_step_searching_empty scan_step_processing_empty)
    from IHS[of l boxes] obtain l1 where
      s: "foldl (scan_step app blank n) (STAGE_SEARCHING_FOR_CHAR, l, boxes) [Suc i..<n]
          = (STAGE_SEARCHING_FOR_CHAR, l1, boxes @ boxes_of app (spans (Suc i) ?fl))"
      by blast
    from IHS[of left "app boxes left i"] obtain l2 where
      p: "foldl (scan_step app blank n) (STAGE_SEARCHING_FOR_CHAR, left, app boxes left i) [Suc i..<n]
          = (STAGE_SEARCHING_FOR_CHAR, l2, app boxes left i @ boxes_of app (spans (Suc i) ?fl))"
      by blast
    have a: "app boxes left i = boxes @ app [] left i"
      by (rule app)
    have "foldl (scan_step app blank n) (STAGE_SEARCHING_FOR_CHAR, l, boxes) [i..<n]
          = (STAGE_SEARCHING_FOR_CHAR, l1, boxes @ boxes_of app (spans i (map (\<lambda>x. \<not> blank x) [i..<n])))"
      unfolding fl unfolding u by (simp add: st s)
    moreover have "foldl (scan_step app blank n) (STAGE_PROCESSING_CHAR, left, boxes) [i..<n]
          = (STAGE_SEARCHING_FOR_CHAR, l2,
             boxes @ app [] left (i + length (takeWhile id (map (\<lambda>x. \<not> blank x) [i..<n])))
               @ boxes_of app (spans (i + length (takeWhile id (map (\<lambda>x. \<not> blank x) [i..<n])))
                                (dropWhile id (map (\<lambda>x. \<not> blank x) [i..<n]))))"
      unfolding fl unfolding u using p by (simp add: st a)
    ultimately show ?thesis
      by blast
  next
    case False
    have fl: "map (\<lambda>x. \<not> blank x) [i..<n] = True # ?fl"
      using False by (simp add: u)
    show ?thesis
    proof (cases "Suc i = n")
      case True
      then have e: "[Suc i..<n] = []" and i1: "i = n - 1"
        by simp_all
      have st: "scan_step app blank n (STAGE_SEARCHING_FOR_CHAR, l, boxes) i
          = (STAGE_SEARCHING_FOR_CHAR, i, app boxes i n)"
        "scan_step app blank n (STAGE_PROCESSING_CHAR, left, boxes) i
          = (STAGE_SEARCHING_FOR_CHAR, left, app boxes left n)"
        using False i1 by (simp_all add: scan_step_searching_ink scan_step_processing_ink)
      have a: "app boxes i n = boxes @ app [] i n" "app boxes left n = boxes @ app [] left n"
        by (rule app)+
      have "foldl (scan_step app blank n) (STAGE_SEARCHING_FOR_CHAR, l, boxes) [i..<n]
          = (STAGE_SEARCHING_FOR_CHAR, i, boxes @ boxes_of app (spans i (map (\<lambda>x. \<not> blank x) [i..<n])))"
        unfolding fl unfolding u e using True by (simp add: st a boxes_of_def)
      moreover have "foldl (scan_step app blank n) (STAGE_PROCESSING_CHAR, left, boxes) [i..<n]
          = (STAGE_SEARCHING_FOR_CHAR, left,
             boxes @ app [] left (i + length (takeWhile id (map (\<lambda>x. \<not> blank x) [i..<n])))
               @ boxes_of app (spans (i + length (takeWhile id (map (\<lambda>x. \<not> blank x) [i..<n])))
                                (dropWhile id (map (\<lambda>x. \<not> blank x) [i..<n]))))"
        unfolding fl unfolding u e using True by (simp add: st a boxes_of_def)
      ultimately show ?thesis
        by blast
    next
      case ne: False
      then have ni: "i \<noteq> n - 1" "Suc i < n"
        using lt by auto
      have st: "scan_step app blank n (STAGE_SEARCHING_FOR_CHAR, l, boxes) i
          = (STAGE_PROCESSING_CHAR, i, boxes)"
        "scan_step app blank n (STAGE_PROCESSING_CHAR, left, boxes) i
          = (STAGE_PROCESSING_CHAR, left, boxes)"
        using False ni(1) by (simp_all add: scan_step_searching_ink scan_step_processing_ink)
      from IHP[of i boxes] ni obtain l1 where
        s: "foldl (scan_step app blank n) (STAGE_PROCESSING_CHAR, i, boxes) [Suc i..<n]
          = (STAGE_SEARCHING_FOR_CHAR, l1,
             boxes @ app [] i (Suc i + length (takeWhile id ?fl))
               @ boxes_of app (spans (Suc i + length (takeWhile id ?fl)) (dropWhile id ?fl)))"
        by blast
      from IHP[of left boxes] ni obtain l2 where
        p: "foldl (scan_step app blank n) (STAGE_PROCESSING_CHAR, left, boxes) [Suc i..<n]
          = (STAGE_SEARCHING_FOR_CHAR, l2,
             boxes @ app [] left (Suc i + length (takeWhile id ?fl))
               @ boxes_of app (spans (Suc i + length (takeWhile id ?fl)) (dropWhile id ?fl)))"
        by blast
      have "foldl (scan_step app blank n) (STAGE_SEARCHING_FOR_CHAR, l, boxes) [i..<n]
          = (STAGE_SEARCHING_FOR_CHAR, l1, boxes @ boxes_of app (spans i (map (\<lambda>x. \<not> blank x) [i..<n])))"
        unfolding fl unfolding u by (simp add: st s boxes_of_def)
      moreover have "foldl (scan_step app blank n) (STAGE_PROCESSING_CHAR, left, boxes) [i..<n]
          = (STAGE_SEARCHING_FOR_CHAR, l2,
             boxes @ app [] left (i + length (takeWhile id (map (\<lambda>x. \<not> blank x) [i..<n])))
               @ boxes_of app (spans (i + length (takeWhile id (map (\<lambda>x. \<not> blank x) [i..<n])))
                                (dropWhile id (map (\<lambda>x. \<not> blank x) [i..<n]))))"
        unfolding fl unfolding u by (simp add: st p)
      ultimately show ?thesis
        by blast
    qed
  qed
qed

lemma append_to_char_boxes_LR_app:
  "append_to_char_boxes_LR lst a b = lst @ append_to_char_boxes_LR [] a b"
  by (simp add: append_to_char_boxes_LR_def Let_def)

lemma boxes_of_LR: "boxes_of append_to_char_boxes_LR sp = concat (map split_wide sp)"
proof -
  have "(\<lambda>(a, b). append_to_char_boxes_LR [] a b) = split_wide"
    by (intro ext) (simp add: append_to_char_boxes_LR_def split_wide_def Let_def split: prod.splits)
  then show ?thesis
    by (simp add: boxes_of_def)
qed

lemma boxes_of_plain: "boxes_of (\<lambda>lst a b. lst @ [(a, b)]) sp = sp"
  by (induction sp) (auto simp: boxes_of_def)

lemma char_boxes_LR_of_spans: "char_boxes_LR_of img = column_boxes img"
proof -
  obtain w h where sz: "img_size img = (w, h)"
    by (cases "img_size img")
  have fl: "(\<lambda>x. \<not> list_all (\<lambda>y. load img (x, y) \<noteq> 0) [0..<h]) = column_has_ink img"
    by (intro ext) (simp add: column_has_ink_def sz list_all_iff list_ex_iff)
  from scan_spans[of append_to_char_boxes_LR w 0 w "\<lambda>x. list_all (\<lambda>y. load img (x, y) \<noteq> 0) [0..<h]" 0 "[]",
      OF append_to_char_boxes_LR_app, THEN conjunct1]
  obtain l' where
    "foldl (column_step (load img) w h) (STAGE_SEARCHING_FOR_CHAR, 0, []) [0..<w]
      = (STAGE_SEARCHING_FOR_CHAR, l',
         boxes_of append_to_char_boxes_LR (spans 0 (map (column_has_ink img) [0..<w])))"
    unfolding column_step_scan fl by auto
  then show ?thesis
    by (simp add: char_boxes_LR_of_def sz column_boxes_def column_spans_def boxes_of_LR)
qed

lemma rows_of_box:
  "\<exists>u'. foldl (row_step (load img) h box) (STAGE_SEARCHING_FOR_CHAR, u, acc) [0..<h]
     = (STAGE_SEARCHING_FOR_CHAR, u',
        acc @ spans 0 (map (\<lambda>y. list_ex (\<lambda>x. load img (x, y) = 0) [fst box..<snd box]) [0..<h]))"
proof -
  obtain l r where box: "box = (l, r)"
    by (cases box)
  have fl: "(\<lambda>y. \<not> list_all (\<lambda>x. load img (x, y) \<noteq> 0) [l..<r])
      = (\<lambda>y. list_ex (\<lambda>x. load img (x, y) = 0) [l..<r])"
    by (intro ext) (simp add: list_all_iff list_ex_iff)
  from scan_spans[of "\<lambda>lst a b. lst @ [(a, b)]" h 0 h "\<lambda>y. list_all (\<lambda>x. load img (x, y) \<noteq> 0) [l..<r]" u acc,
      THEN conjunct1]
  show ?thesis
    unfolding box row_step_scan fl boxes_of_plain by simp
qed

lemma rows_of_boxes:
  "\<exists>u'. foldl (\<lambda>st box. foldl (row_step (load img) h box) st [0..<h])
           (STAGE_SEARCHING_FOR_CHAR, u, acc) boxes
     = (STAGE_SEARCHING_FOR_CHAR, u',
        acc @ concat (map (\<lambda>box. spans 0 (map (\<lambda>y. list_ex (\<lambda>x. load img (x, y) = 0) [fst box..<snd box]) [0..<h])) boxes))"
proof (induction boxes arbitrary: u acc)
  case Nil
  then show ?case by simp
next
  case (Cons box boxes)
  from rows_of_box[of img h box u acc] obtain u1 where
    b: "foldl (row_step (load img) h box) (STAGE_SEARCHING_FOR_CHAR, u, acc) [0..<h]
     = (STAGE_SEARCHING_FOR_CHAR, u1,
        acc @ spans 0 (map (\<lambda>y. list_ex (\<lambda>x. load img (x, y) = 0) [fst box..<snd box]) [0..<h]))"
    by blast
  from Cons.IH[of u1 "acc @ spans 0 (map (\<lambda>y. list_ex (\<lambda>x. load img (x, y) = 0) [fst box..<snd box]) [0..<h])"]
  show ?case
    by (simp add: b)
qed

lemma char_boxes_UL_of_spans:
  "char_boxes_UL_of img boxes = concat (map (row_spans img) boxes)"
proof -
  obtain w h where sz: "img_size img = (w, h)"
    by (cases "img_size img")
  have r: "row_spans img = (\<lambda>box. spans 0 (map (\<lambda>y. list_ex (\<lambda>x. load img (x, y) = 0) [fst box..<snd box]) [0..<h]))"
    by (intro ext) (simp add: row_spans_def sz row_has_ink_def[abs_def])
  from rows_of_boxes[of img h 0 "[]" boxes] show ?thesis
    unfolding r by (auto simp: char_boxes_UL_of_def sz)
qed

subsection \<open>The table of digests\<close>

lemma sample_hashmap_of_last: "sample_hashmap_of sha1 files d = last_label sha1 files d"
proof (induction files rule: rev_induct)
  case Nil
  then show ?case by (simp add: sample_hashmap_of_def last_label_def)
next
  case (snoc x files)
  obtain fle img where x: "x = (fle, img)"
    by (cases x)
  have s: "sample_hashmap_of sha1 (files @ [(fle, img)]) =
      (sample_hashmap_of sha1 files)(sha1 (tobytes img) \<mapsto> take 1 fle)"
    by (simp add: sample_hashmap_of_def)
  show ?case
    unfolding x
  proof (cases "sha1 (tobytes img) = d")
    case True
    then show "sample_hashmap_of sha1 (files @ [(fle, img)]) d = last_label sha1 (files @ [(fle, img)]) d"
      by (simp add: s last_label_def)
  next
    case False
    then show "sample_hashmap_of sha1 (files @ [(fle, img)]) d = last_label sha1 (files @ [(fle, img)]) d"
      using snoc by (simp add: s last_label_def)
  qed
qed

lemma last_label_in:
  assumes "last_label sha1 files d = Some name"
  shows "\<exists>fle img. (fle, img) \<in> set files \<and> sha1 (tobytes img) = d \<and> name = take 1 fle"
proof -
  let ?same = "filter (\<lambda>(fle, img). sha1 (tobytes img) = d) files"
  have ne: "?same \<noteq> []" and n: "name = take 1 (fst (last ?same))"
    using assms by (auto simp: last_label_def Let_def split: if_splits)
  have "last ?same \<in> set ?same"
    using ne by (rule last_in_set)
  then have "last ?same \<in> set files" "sha1 (tobytes (snd (last ?same))) = d"
    by (auto split: prod.splits)
  then show ?thesis
    using n by (metis prod.collapse)
qed

lemma last_label_length:
  assumes "\<forall>(fle, img)\<in>set files. fle \<noteq> []" "last_label sha1 files d = Some name"
  shows "length name = 1"
proof -
  from last_label_in[OF assms(2)] obtain fle img where
    f: "(fle, img) \<in> set files" "name = take 1 fle"
    by blast
  then have "fle \<noteq> []"
    using assms(1) by auto
  then show ?thesis
    unfolding f(2) by (cases fle) simp_all
qed

lemma last_label_found:
  assumes "(fle, img) \<in> set files"
  shows "\<exists>name. last_label sha1 files (sha1 (tobytes img)) = Some name"
proof -
  have "(fle, img) \<in> set (filter (\<lambda>(fle, im). sha1 (tobytes im) = sha1 (tobytes img)) files)"
    using assms by simp
  then have "filter (\<lambda>(fle, im). sha1 (tobytes im) = sha1 (tobytes img)) files \<noteq> []"
    by (metis empty_iff empty_set)
  then show ?thesis
    by (simp add: last_label_def Let_def)
qed

lemma last_label_same:
  assumes "(fle, img) \<in> set files"
    and "\<forall>(f, im)\<in>set files. sha1 (tobytes im) = sha1 (tobytes img) \<longrightarrow> take 1 f = take 1 fle"
  shows "last_label sha1 files (sha1 (tobytes img)) = Some (take 1 fle)"
proof -
  from last_label_found[OF assms(1), of sha1] obtain name where
    n: "last_label sha1 files (sha1 (tobytes img)) = Some name"
    by blast
  from last_label_in[OF n] obtain f im where
    "(f, im) \<in> set files" "sha1 (tobytes im) = sha1 (tobytes img)" "name = take 1 f"
    by blast
  then have "name = take 1 fle"
    using assms(2) by auto
  then show ?thesis
    using n by simp
qed

subsection \<open>The first greatest score\<close>

lemma max_from_in: "max_from best cs \<in> set (best # cs)"
  by (induction cs arbitrary: best) auto

lemma max_from_mono: "fst best \<le> fst (max_from best cs)"
proof (induction cs arbitrary: best)
  case Nil
  then show ?case by simp
next
  case (Cons a cs)
  have "fst best \<le> fst (if fst a > fst best then a else best)"
    by simp
  also have "\<dots> \<le> fst (max_from (if fst a > fst best then a else best) cs)"
    by (rule Cons.IH)
  finally show ?case
    by simp
qed

lemma max_from_ge: "c \<in> set cs \<Longrightarrow> fst c \<le> fst (max_from best cs)"
proof (induction cs arbitrary: best)
  case Nil
  then show ?case by simp
next
  case (Cons a cs)
  show ?case
  proof (cases "c = a")
    case True
    have "fst a \<le> fst (if fst a > fst best then a else best)"
      by simp
    also have "\<dots> \<le> fst (max_from (if fst a > fst best then a else best) cs)"
      by (rule max_from_mono)
    finally show ?thesis
      using True by simp
  next
    case False
    then have "c \<in> set cs"
      using Cons.prems by simp
    from Cons.IH[OF this] show ?thesis
      by simp
  qed
qed

lemma visual_recognise_best:
  assumes "samples \<noteq> []"
  shows "\<exists>best. max_by_score (score_list_of samples cimg) = Inr best
     \<and> best \<in> set (score_list_of samples cimg)
     \<and> (\<forall>c\<in>set (score_list_of samples cimg). fst c \<le> fst best)
     \<and> visual_recognise_char_img samples cimg = Inr (snd best)"
proof -
  obtain c cs where sl: "score_list_of samples cimg = c # cs"
    using assms by (cases "score_list_of samples cimg") (auto simp: score_list_of_def)
  have "max_by_score (score_list_of samples cimg) = Inr (max_from c cs)"
    by (simp add: max_by_score_def sl)
  then show ?thesis
    using max_from_in[of c cs] max_from_ge[of _ cs c] max_from_mono[of c cs]
    by (auto simp: sl visual_recognise_char_img_def)
qed

lemma visual_recognise_label:
  assumes "samples \<noteq> []"
  shows "\<exists>label. visual_recognise_char_img samples cimg = Inr label \<and> label \<in> fst ` set samples"
proof -
  from visual_recognise_best[OF assms, of cimg] obtain best where
    b: "best \<in> set (score_list_of samples cimg)" "visual_recognise_char_img samples cimg = Inr (snd best)"
    by blast
  from b(1) obtain s where s: "s \<in> set samples" "best = (\<lambda>(char_name, sdata, ssize).
            (calculate_similarity (load cimg) (img_size cimg) sdata ssize, char_name)) s"
    unfolding score_list_of_def by auto
  have "snd best = fst s"
    unfolding s(2) by (simp split: prod.splits)
  then have "snd best \<in> fst ` set samples"
    using s(1) by simp
  then show ?thesis
    using b(2) by blast
qed

subsection \<open>The two matching loops\<close>

lemma visual_match_labels:
  assumes "samples \<noteq> []"
  shows "fst (visual_match samples i pairs) = Inr (map (label_of samples) pairs)"
proof (induction pairs arbitrary: i)
  case Nil
  then show ?case by simp
next
  case (Cons p pairs)
  obtain cimg res where p: "p = (cimg, res)"
    by (cases p)
  obtain scored where r: "visual_match samples (Suc i) pairs = (Inr (map (label_of samples) pairs), scored)"
    using Cons.IH[of "Suc i"] by (cases "visual_match samples (Suc i) pairs") simp
  from visual_recognise_label[OF assms, of cimg] obtain label where
    l: "visual_recognise_char_img samples cimg = Inr label"
    by blast
  show ?case
    by (simp add: p r l label_of_def)
qed

lemma visual_match_scored_ge: "j \<in> set (snd (visual_match samples i pairs)) \<Longrightarrow> i \<le> j"
proof (induction pairs arbitrary: i)
  case Nil
  then show ?case by simp
next
  case (Cons p pairs)
  obtain cimg res where p: "p = (cimg, res)"
    by (cases p)
  have "j = i \<or> j \<in> set (snd (visual_match samples (Suc i) pairs))"
    using Cons.prems unfolding p
    by (auto split: if_splits sum.splits prod.splits)
  then show ?case
    using Cons.IH[of "Suc i"] by auto
qed

lemma visual_match_not_scored:
  assumes "k < length pairs" "snd (pairs ! k) \<noteq> None" "snd (pairs ! k) \<noteq> Some []"
  shows "i + k \<notin> set (snd (visual_match samples i pairs))"
  using assms
proof (induction pairs arbitrary: i k)
  case Nil
  then show ?case by simp
next
  case (Cons p pairs)
  obtain cimg res where p: "p = (cimg, res)"
    by (cases p)
  show ?case
  proof (cases k)
    case 0
    then have t: "res \<noteq> None" "res \<noteq> Some []"
      using Cons.prems p by simp_all
    have "snd (visual_match samples i (p # pairs)) = snd (visual_match samples (Suc i) pairs)"
      unfolding p using t by (simp split: sum.splits prod.splits)
    then show ?thesis
      using visual_match_scored_ge[of i samples "Suc i" pairs] 0 by auto
  next
    case (Suc k')
    then have "Suc i + k' \<notin> set (snd (visual_match samples (Suc i) pairs))"
      using Cons.prems by (intro Cons.IH) simp_all
    moreover have "set (snd (visual_match samples i (p # pairs)))
        \<subseteq> insert i (set (snd (visual_match samples (Suc i) pairs)))"
      unfolding p by (auto split: if_splits sum.splits prod.splits)
    ultimately show ?thesis
      using Suc by auto
  qed
qed

lemma concat_singletons:
  assumes "\<forall>l\<in>set ls. length l = 1"
  shows "length (concat ls) = length ls \<and> (\<forall>i<length ls. [concat ls ! i] = ls ! i)"
  using assms
proof (induction ls)
  case Nil
  then show ?case by simp
next
  case (Cons l ls)
  then obtain c where l: "l = [c]"
    by (cases l) auto
  have ih: "length (concat ls) = length ls" "\<forall>i<length ls. [concat ls ! i] = ls ! i"
    using Cons by simp_all
  show ?case
  proof (intro conjI allI impI)
    show "length (concat (l # ls)) = length (l # ls)"
      by (simp add: l ih(1))
  next
    fix i
    assume "i < length (l # ls)"
    then show "[concat (l # ls) ! i] = (l # ls) ! i"
      using ih(2) by (cases i) (simp_all add: l)
  qed
qed

lemma samples_of_labels:
  assumes "\<forall>(fle, img)\<in>set files. fle \<noteq> []" "label \<in> fst ` set (samples_of files)"
  shows "length label = 1"
proof -
  from assms(2) obtain fle img where f: "(fle, img) \<in> set files" "label = take 1 fle"
    unfolding samples_of_def by auto
  then have "fle \<noteq> []"
    using assms(1) by auto
  then show ?thesis
    unfolding f(2) by (cases fle) simp_all
qed

lemma label_of_length:
  assumes ne: "files \<noteq> []" and names: "\<forall>(fle, img)\<in>set files. fle \<noteq> []"
  shows "length (label_of (samples_of files) (cimg, sample_hashmap_of sha1 files (sha1 (tobytes cimg)))) = 1"
proof (cases "sample_hashmap_of sha1 files (sha1 (tobytes cimg))")
  case None
  have s: "samples_of files \<noteq> []"
    using ne by (simp add: samples_of_def)
  from visual_recognise_label[OF s, of cimg] obtain label where
    l: "visual_recognise_char_img (samples_of files) cimg = Inr label" "label \<in> fst ` set (samples_of files)"
    by blast
  show ?thesis
    using samples_of_labels[OF names l(2)] by (simp add: label_of_def None l(1))
next
  case (Some name)
  then have "length name = 1"
    using last_label_length[OF names, of sha1 "sha1 (tobytes cimg)" name]
    by (simp add: sample_hashmap_of_last)
  then show ?thesis
    by (auto simp: label_of_def Some)
qed

lemma char_images_of_boxes:
  "char_images_of img =
     (if length (column_boxes (binarize img)) = 4 \<and> length (row_boxes (binarize img)) = 4
      then Some (map (\<lambda>((left, right), (upper, lower)). crop (binarize img) (left, upper, right, lower))
                   (zip (column_boxes (binarize img)) (row_boxes (binarize img))))
      else None)"
  by (simp add: char_images_of_def Let_def char_boxes_LR_of_spans char_boxes_UL_of_spans row_boxes_def)

lemma char_images_of_length: "char_images_of img = Some char_images \<Longrightarrow> length char_images = 4"
  by (auto simp: char_images_of_boxes split: if_splits)

lemma solve_run_labels:
  assumes ne: "files \<noteq> []" and ci: "char_images_of img = Some char_images"
  shows "\<exists>scored. solve_run sha1 (samples_of files) (sample_hashmap_of sha1 files) img =
     (Inr (Some (concat (map (label_of (samples_of files))
                          (zip char_images (quick_match sha1 (sample_hashmap_of sha1 files) char_images))))),
      scored)
     \<and> scored = snd (visual_match (samples_of files) 0
                   (zip char_images (quick_match sha1 (sample_hashmap_of sha1 files) char_images)))"
proof -
  have s: "samples_of files \<noteq> []"
    using ne by (simp add: samples_of_def)
  let ?pairs = "zip char_images (quick_match sha1 (sample_hashmap_of sha1 files) char_images)"
  obtain scored where v: "visual_match (samples_of files) 0 ?pairs =
      (Inr (map (label_of (samples_of files)) ?pairs), scored)"
    using visual_match_labels[OF s, of 0 ?pairs]
    by (cases "visual_match (samples_of files) 0 ?pairs") simp
  show ?thesis
    by (simp add: solve_run_def ci v)
qed

lemma quick_pairs:
  "zip char_images (quick_match sha1 m char_images) =
     map (\<lambda>cimg. (cimg, m (sha1 (tobytes cimg)))) char_images"
  by (induction char_images) (simp_all add: quick_match_def)

lemma labels_length_one:
  assumes ne: "files \<noteq> []" and names: "\<forall>(fle, img)\<in>set files. fle \<noteq> []"
  shows "\<forall>l\<in>set (map (label_of (samples_of files))
            (zip char_images (quick_match sha1 (sample_hashmap_of sha1 files) char_images))).
          length l = 1"
  using label_of_length[OF ne names, of _ sha1]
  by (auto simp: quick_pairs)

subsection \<open>What solve returns\<close>

lemma split_wide_narrow:
  assumes "\<forall>(l, r)\<in>set sp. r - l \<le> 8"
  shows "concat (map split_wide sp) = sp"
  using assms by (induction sp) (auto simp: split_wide_def)

lemma solve_some:
  assumes ne: "files \<noteq> []" and names: "\<forall>(fle, im)\<in>set files. fle \<noteq> []"
    and four: "length (column_boxes (binarize img)) = 4" "length (row_boxes (binarize img)) = 4"
  shows "\<exists>code. solve sha1 (samples_of files) (sample_hashmap_of sha1 files) img = Inr (Some code)
     \<and> length code = 4"
proof -
  obtain char_images where ci: "char_images_of img = Some char_images"
    using four by (simp add: char_images_of_boxes)
  have len: "length char_images = 4"
    using ci by (rule char_images_of_length)
  let ?labels = "map (label_of (samples_of files))
      (zip char_images (quick_match sha1 (sample_hashmap_of sha1 files) char_images))"
  from solve_run_labels[OF ne ci, of sha1] have
    s: "solve sha1 (samples_of files) (sample_hashmap_of sha1 files) img = Inr (Some (concat ?labels))"
    by (auto simp: solve_def)
  have "length (concat ?labels) = length ?labels"
    using concat_singletons[OF labels_length_one[OF ne names, of char_images sha1]] by blast
  then have "length (concat ?labels) = 4"
    by (simp add: len quick_match_def)
  then show ?thesis
    using s by blast
qed

lemma solve_none:
  assumes "\<not> (length (column_boxes (binarize img)) = 4 \<and> length (row_boxes (binarize img)) = 4)"
  shows "solve sha1 samples sample_hashmap img = Inr None"
proof -
  have "char_images_of img = None"
    using assms by (simp add: char_images_of_boxes)
  then show ?thesis
    by (simp add: solve_def solve_run_def)
qed

text \<open>
  C3, as stated, fails: the binarization of \<open>ex_touching\<close> has three column spans, the
  first of them 10 wide, and \<open>solve\<close> returns a string of four characters for it, since
  the wide span is split.
\<close>

theorem solve_three_spans:
  "column_spans (binarize ex_touching) = [(0, 10), (11, 12), (13, 14)]
   \<and> solve id (samples_of ex_files) (sample_hashmap_of id ex_files) ex_touching = Inr (Some ''7777'')"
proof (intro conjI)
qed code_simp+

text \<open>
  C3, amended. With a sample set that is not empty (every file name has a first
  character): \<open>solve\<close> returns a string of four characters when the binarization has
  exactly four column spans, each at most 8 wide, and four row spans; it returns one
  exactly when, after every column span wider than 8 is split at its midpoint, there are
  four column boxes and four row spans in them; for every other bitmap it returns \<open>None\<close>.
\<close>

theorem solve_four_boxes:
  assumes "files \<noteq> []" and "\<forall>(fle, im)\<in>set files. fle \<noteq> []"
  shows "(length (column_spans (binarize img)) = 4
          \<and> (\<forall>(l, r)\<in>set (column_spans (binarize img)). r - l \<le> 8)
          \<and> length (concat (map (row_spans (binarize img)) (column_spans (binarize img)))) = 4
          \<longrightarrow> (\<exists>code. solve sha1 (samples_of files) (sample_hashmap_of sha1 files) img = Inr (Some code)
                 \<and> length code = 4))
       \<and> (length (column_boxes (binarize img)) = 4 \<and> length (row_boxes (binarize img)) = 4
          \<longrightarrow> (\<exists>code. solve sha1 (samples_of files) (sample_hashmap_of sha1 files) img = Inr (Some code)
                 \<and> length code = 4))
       \<and> (\<not> (length (column_boxes (binarize img)) = 4 \<and> length (row_boxes (binarize img)) = 4)
          \<longrightarrow> solve sha1 (samples_of files) (sample_hashmap_of sha1 files) img = Inr None)"
proof (intro conjI impI)
  assume a: "length (column_spans (binarize img)) = 4
      \<and> (\<forall>(l, r)\<in>set (column_spans (binarize img)). r - l \<le> 8)
      \<and> length (concat (map (row_spans (binarize img)) (column_spans (binarize img)))) = 4"
  then have "column_boxes (binarize img) = column_spans (binarize img)"
    unfolding column_boxes_def by (intro split_wide_narrow) simp
  then have "length (column_boxes (binarize img)) = 4" "length (row_boxes (binarize img)) = 4"
    using a by (simp_all add: row_boxes_def)
  then show "\<exists>code. solve sha1 (samples_of files) (sample_hashmap_of sha1 files) img = Inr (Some code)
      \<and> length code = 4"
    by (rule solve_some[OF assms])
next
  assume "length (column_boxes (binarize img)) = 4 \<and> length (row_boxes (binarize img)) = 4"
  then show "\<exists>code. solve sha1 (samples_of files) (sample_hashmap_of sha1 files) img = Inr (Some code)
      \<and> length code = 4"
    using solve_some[OF assms] by blast
next
  assume "\<not> (length (column_boxes (binarize img)) = 4 \<and> length (row_boxes (binarize img)) = 4)"
  then show "solve sha1 (samples_of files) (sample_hashmap_of sha1 files) img = Inr None"
    by (rule solve_none)
qed

theorem solve_four_boxes_witness:
  "ex_one \<noteq> []
   \<and> column_spans (binarize ex_separate) = [(0, 1), (2, 3), (4, 5), (6, 7)]
   \<and> length (concat (map (row_spans (binarize ex_separate)) (column_spans (binarize ex_separate)))) = 4
   \<and> (\<exists>code. solve id (samples_of ex_one) (sample_hashmap_of id ex_one) ex_separate = Inr (Some code)
        \<and> length code = 4)
   \<and> length (column_boxes (binarize ex_blank)) = 1
   \<and> solve id (samples_of ex_one) (sample_hashmap_of id ex_one) ex_blank = Inr None"
proof -
  have ne: "ex_one \<noteq> []"
    by code_simp
  have names: "\<forall>(fle, im)\<in>set ex_one. fle \<noteq> []"
    by (simp add: ex_one_def)
  have sp: "column_spans (binarize ex_separate) = [(0, 1), (2, 3), (4, 5), (6, 7)]"
    by code_simp
  have rows: "length (concat (map (row_spans (binarize ex_separate)) (column_spans (binarize ex_separate)))) = 4"
    by code_simp
  have one: "length (column_boxes (binarize ex_blank)) = 1"
    by code_simp
  have a: "length (column_spans (binarize ex_separate)) = 4
      \<and> (\<forall>(l, r)\<in>set (column_spans (binarize ex_separate)). r - l \<le> 8)
      \<and> length (concat (map (row_spans (binarize ex_separate)) (column_spans (binarize ex_separate)))) = 4"
    using rows by (simp add: sp)
  have b: "\<not> (length (column_boxes (binarize ex_blank)) = 4 \<and> length (row_boxes (binarize ex_blank)) = 4)"
    using one by simp
  from solve_four_boxes[OF ne names, of ex_separate id] a
  have 1: "\<exists>code. solve id (samples_of ex_one) (sample_hashmap_of id ex_one) ex_separate = Inr (Some code)
        \<and> length code = 4"
    by blast
  from solve_four_boxes[OF ne names, of ex_blank id] b
  have 2: "solve id (samples_of ex_one) (sample_hashmap_of id ex_one) ex_blank = Inr None"
    by blast
  show ?thesis
    using ne sp rows 1 one 2 by blast
qed

text \<open>
  C8, as stated, fails: the third glyph of \<open>ex_touching\<close> has the size, the pixels and
  the buffer of the sample of \<open>1_0.png\<close>; the sample of \<open>7_0.png\<close>, registered after it,
  has another size and the same buffer (one byte of zero bits), so it has taken the entry
  of the table, and the glyph is resolved to its label.
\<close>

theorem hash_entry_overwritten:
  "take 1 (fst (ex_files ! 0)) = ''1''
   \<and> (\<exists>char_images. char_images_of ex_touching = Some char_images
        \<and> tobytes (char_images ! 2) = tobytes (snd (ex_files ! 0))
        \<and> img_size (char_images ! 2) = img_size (snd (ex_files ! 0))
        \<and> load (char_images ! 2) (0, 0) = load (snd (ex_files ! 0)) (0, 0))
   \<and> solve_run id (samples_of ex_files) (sample_hashmap_of id ex_files) ex_touching
       = (Inr (Some ''7777''), [])"
proof (intro conjI)
  let ?b = "binarize ex_touching"
  let ?cis = "map (\<lambda>((left, right), (upper, lower)). crop ?b (left, upper, right, lower))
      (zip (column_boxes ?b) (row_boxes ?b))"
  have four: "length (column_boxes ?b) = 4" "length (row_boxes ?b) = 4"
    by code_simp+
  have ci: "char_images_of ex_touching = Some ?cis"
    using four by (simp add: char_images_of_boxes)
  have "tobytes (?cis ! 2) = tobytes (snd (ex_files ! 0))"
    by code_simp
  moreover have "img_size (?cis ! 2) = img_size (snd (ex_files ! 0))"
    by code_simp
  moreover have "load (?cis ! 2) (0, 0) = load (snd (ex_files ! 0)) (0, 0)"
    by code_simp
  ultimately show "\<exists>char_images. char_images_of ex_touching = Some char_images
      \<and> tobytes (char_images ! 2) = tobytes (snd (ex_files ! 0))
      \<and> img_size (char_images ! 2) = img_size (snd (ex_files ! 0))
      \<and> load (char_images ! 2) (0, 0) = load (snd (ex_files ! 0)) (0, 0)"
    using ci by blast
qed code_simp+

text \<open>
  C8, amended. A glyph whose buffer is that of a registered sample (every file name has
  a first character) is resolved from the table, without a call of
  \<open>visual_recognise_char_img\<close> for it, to the label of the last registered sample with
  the same digest: the sample's own label when every sample with its digest has that label.
\<close>

theorem hash_fast_path:
  assumes "char_images_of img = Some char_images" and "i < length char_images"
    and "(fle, simg) \<in> set files" and "tobytes (char_images ! i) = tobytes simg"
    and "\<forall>(f, im)\<in>set files. f \<noteq> []"
  shows "\<exists>code scored.
      solve_run sha1 (samples_of files) (sample_hashmap_of sha1 files) img = (Inr (Some code), scored)
      \<and> i \<notin> set scored
      \<and> length code = length char_images
      \<and> Some [code ! i] = last_label sha1 files (sha1 (tobytes simg))
      \<and> ((\<forall>(f, im)\<in>set files. sha1 (tobytes im) = sha1 (tobytes simg) \<longrightarrow> take 1 f = take 1 fle)
           \<longrightarrow> [code ! i] = take 1 fle)"
proof -
  have ne: "files \<noteq> []"
    using assms(3) by auto
  let ?m = "sample_hashmap_of sha1 files"
  let ?pairs = "zip char_images (quick_match sha1 ?m char_images)"
  let ?labels = "map (label_of (samples_of files)) ?pairs"
  from solve_run_labels[OF ne assms(1), of sha1] have
    run: "solve_run sha1 (samples_of files) ?m img =
        (Inr (Some (concat ?labels)), snd (visual_match (samples_of files) 0 ?pairs))"
    by blast
  from last_label_found[OF assms(3), of sha1] obtain name where
    n: "last_label sha1 files (sha1 (tobytes simg)) = Some name"
    by blast
  have n1: "length name = 1"
    using last_label_length[OF assms(5) n] .
  have pk: "?pairs ! i = (char_images ! i, Some name)"
    using assms(2) by (simp add: quick_pairs sample_hashmap_of_last assms(4) n)
  have li: "i < length ?pairs"
    using assms(2) by (simp add: quick_pairs)
  have "0 + i \<notin> set (snd (visual_match (samples_of files) 0 ?pairs))"
    using n1 by (intro visual_match_not_scored[OF li]) (auto simp: pk)
  then have ns: "i \<notin> set (snd (visual_match (samples_of files) 0 ?pairs))"
    by simp
  have lab: "?labels ! i = name"
    using li n1 by (auto simp: pk label_of_def)
  have cs: "length (concat ?labels) = length ?labels" "\<forall>k<length ?labels. [concat ?labels ! k] = ?labels ! k"
    using concat_singletons[OF labels_length_one[OF ne assms(5), of char_images sha1]] by blast+
  have len: "length (concat ?labels) = length char_images"
    using cs(1) by (simp add: quick_pairs)
  have ci: "[concat ?labels ! i] = name"
    using cs(2) li lab by simp
  have same: "(\<forall>(f, im)\<in>set files. sha1 (tobytes im) = sha1 (tobytes simg) \<longrightarrow> take 1 f = take 1 fle)
      \<longrightarrow> [concat ?labels ! i] = take 1 fle"
  proof
    assume "\<forall>(f, im)\<in>set files. sha1 (tobytes im) = sha1 (tobytes simg) \<longrightarrow> take 1 f = take 1 fle"
    from last_label_same[OF assms(3) this] show "[concat ?labels ! i] = take 1 fle"
      using n ci by simp
  qed
  show ?thesis
    using run ns len ci n same by (intro exI[of _ "concat ?labels"] exI[of _ "snd (visual_match (samples_of files) 0 ?pairs)"]) simp
qed

theorem hash_fast_path_witness:
  "\<exists>code scored.
      solve_run id (samples_of ex_one) (sample_hashmap_of id ex_one) ex_touching = (Inr (Some code), scored)
      \<and> 2 \<notin> set scored \<and> length code = 4 \<and> [code ! 2] = ''1''"
proof -
  let ?b = "binarize ex_touching"
  let ?cis = "map (\<lambda>((left, right), (upper, lower)). crop ?b (left, upper, right, lower))
      (zip (column_boxes ?b) (row_boxes ?b))"
  have four: "length (column_boxes ?b) = 4" "length (row_boxes ?b) = 4"
    by code_simp+
  have ci: "char_images_of ex_touching = Some ?cis"
    using four by (simp add: char_images_of_boxes)
  have len: "length ?cis = 4"
    using four by simp
  have i: "2 < length ?cis"
    using len by simp
  have f: "(''1_0.png'', ex_image 1 1 [(0, 0)]) \<in> set ex_one"
    by (simp add: ex_one_def)
  have t: "tobytes (?cis ! 2) = tobytes (ex_image 1 1 [(0, 0)])"
    by code_simp
  have names: "\<forall>(f, im)\<in>set ex_one. f \<noteq> []"
    by (simp add: ex_one_def)
  have same: "\<forall>(f, im)\<in>set ex_one. id (tobytes im) = id (tobytes (ex_image 1 1 [(0, 0)]))
      \<longrightarrow> take 1 f = take 1 ''1_0.png''"
    by (simp add: ex_one_def)
  from hash_fast_path[OF ci i f t names, of id] same len show ?thesis
    by auto
qed

subsection \<open>The scores of the slow match\<close>

lemma pixel_score_ge: "- 1 \<le> pixel_score a b"
  by (simp add: pixel_score_def)

lemma sum_list_ge:
  fixes f :: "'a \<Rightarrow> int"
  assumes "\<forall>x\<in>set xs. c \<le> f x"
  shows "c * int (length xs) \<le> sum_list (map f xs)"
  using assms by (induction xs) (auto simp: algebra_simps)

lemma score_of_ge: "- int (cwidth * cheight) \<le> score_of cdata sdata cwidth cheight"
proof -
  have col: "- 1 * int cheight \<le> (\<Sum>y\<leftarrow>[0..<cheight]. pixel_score (cdata (x, y)) (sdata (x, y)))" for x
    using sum_list_ge[of "[0..<cheight]" "- 1" "\<lambda>y. pixel_score (cdata (x, y)) (sdata (x, y))"]
      pixel_score_ge by simp
  have "(- int cheight) * int (length [0..<cwidth]) \<le>
      (\<Sum>x\<leftarrow>[0..<cwidth]. \<Sum>y\<leftarrow>[0..<cheight]. pixel_score (cdata (x, y)) (sdata (x, y)))"
    using col by (intro sum_list_ge) simp
  then show ?thesis
    by (simp add: score_of_def mult.commute)
qed

lemma foldl_max_in: "foldl max (a :: int) xs \<in> set (a # xs)"
proof (induction xs arbitrary: a)
  case Nil
  then show ?case by simp
next
  case (Cons x xs)
  have m: "max a x = a \<or> max a x = x"
    by (simp add: max_def)
  have "foldl max (max a x) xs \<in> set (max a x # xs)"
    by (rule Cons.IH)
  then have "foldl max (max a x) xs = max a x \<or> foldl max (max a x) xs \<in> set xs"
    by simp
  then have "foldl max (max a x) xs \<in> set (a # x # xs)"
    using m by auto
  then show ?case
    by simp
qed

lemma py_max_in: "xs \<noteq> [] \<Longrightarrow> py_max xs \<in> set xs"
  using foldl_max_in[of "hd xs" "tl xs"] by (simp add: py_max_def)

lemma py_max_const:
  assumes "xs \<noteq> []" "ys \<noteq> []"
  shows "py_max (concat (map (\<lambda>xoffset. map (\<lambda>yoffset. s) ys) xs)) = s"
proof -
  let ?l = "concat (map (\<lambda>xoffset. map (\<lambda>yoffset. s) ys) xs)"
  have sub: "set ?l \<subseteq> {s}"
    by auto
  obtain x xs' y ys' where "xs = x # xs'" "ys = y # ys'"
    using assms by (cases xs; cases ys) auto
  then have "?l \<noteq> []"
    by simp
  then have "py_max ?l \<in> set ?l"
    by (rule py_max_in)
  then show ?thesis
    using sub by blast
qed

lemma calculate_similarity_fits:
  assumes "cwidth \<le> swidth" "cheight \<le> sheight"
  shows "calculate_similarity cdata (cwidth, cheight) sdata (swidth, sheight)
     = score_of cdata sdata cwidth cheight"
proof (cases "(cwidth, cheight) = (swidth, sheight)")
  case True
  then show ?thesis
    by (simp add: calculate_similarity_def)
next
  case False
  have x: "[0..<swidth - cwidth + 1] \<noteq> []" and y: "[0..<sheight - cheight + 1] \<noteq> []"
    by simp_all
  have "calculate_similarity cdata (cwidth, cheight) sdata (swidth, sheight) =
      py_max (concat (map (\<lambda>xoffset. map (\<lambda>yoffset. score_of cdata sdata cwidth cheight)
        [0..<sheight - cheight + 1]) [0..<swidth - cwidth + 1]))"
  proof -
    have ne: "\<not> (cwidth = swidth \<and> cheight = sheight)"
      using False by simp
    have le: "\<not> (swidth < cwidth \<or> sheight < cheight)"
      using assms by simp
    show ?thesis
      unfolding calculate_similarity_def using ne le by (auto simp del: upt_Suc)
  qed
  then show ?thesis
    unfolding py_max_const[OF x y] .
qed

lemma calculate_similarity_oversize:
  assumes "swidth < cwidth \<or> sheight < cheight"
  shows "calculate_similarity cdata (cwidth, cheight) sdata (swidth, sheight) = - 100"
  using assms by (auto simp: calculate_similarity_def)

text \<open>
  C4, as stated, fails: a glyph of 8 by 13 pixels, all ink, scores \<open>-104\<close> against a
  blank sample of its own size, below the \<open>-100\<close> of the sample of one pixel that it
  exceeds, and that sample wins the recognition.
\<close>

theorem oversize_sample_wins:
  "img_size ex_tall = (8, 13)
   \<and> map (\<lambda>(char_name, sdata, ssize). (char_name, ssize)) (samples_of ex_tall_files)
       = [(''1'', (1, 1)), (''8'', (8, 13))]
   \<and> score_list_of (samples_of ex_tall_files) ex_tall = [(- 100, ''1''), (- 104, ''8'')]
   \<and> visual_recognise_char_img (samples_of ex_tall_files) ex_tall = Inr ''1''"
proof (intro conjI)
  show l: "score_list_of (samples_of ex_tall_files) ex_tall = [(- 100, ''1''), (- 104, ''8'')]"
    by code_simp
  show "visual_recognise_char_img (samples_of ex_tall_files) ex_tall = Inr ''1''"
    by (simp add: visual_recognise_char_img_def max_by_score_def l)
qed code_simp+

text \<open>
  C4, amended. A sample that the glyph exceeds in a dimension scores \<open>-100\<close>. When the
  glyph has fewer than 100 pixels and fits in one sample at least, the recognition is
  won, with a score above \<open>-100\<close>, by a sample that the glyph fits in.
\<close>

theorem oversize_sample_loses:
  assumes "(name, sdata, ssize) \<in> set samples"
    and "fst (img_size cimg) \<le> fst ssize" and "snd (img_size cimg) \<le> snd ssize"
    and "fst (img_size cimg) * snd (img_size cimg) < 100"
  shows "(\<forall>(n, sd, ss)\<in>set samples.
            fst ss < fst (img_size cimg) \<or> snd ss < snd (img_size cimg)
            \<longrightarrow> calculate_similarity (load cimg) (img_size cimg) sd ss = - 100)
       \<and> (\<exists>(n, sd, ss)\<in>set samples.
            fst (img_size cimg) \<le> fst ss \<and> snd (img_size cimg) \<le> snd ss
            \<and> - 100 < calculate_similarity (load cimg) (img_size cimg) sd ss
            \<and> max_by_score (score_list_of samples cimg)
                = Inr (calculate_similarity (load cimg) (img_size cimg) sd ss, n)
            \<and> visual_recognise_char_img samples cimg = Inr n)"
proof -
  obtain cw ch where cs: "img_size cimg = (cw, ch)"
    by (cases "img_size cimg")
  have over: "calculate_similarity (load cimg) (img_size cimg) sd ss = - 100"
    if "fst ss < fst (img_size cimg) \<or> snd ss < snd (img_size cimg)" for sd ss
    using that calculate_similarity_oversize[of "fst ss" cw "snd ss" ch "load cimg" sd]
    by (simp add: cs)
  have ne: "samples \<noteq> []"
    using assms(1) by auto
  from visual_recognise_best[OF ne, of cimg] obtain best where
    b: "max_by_score (score_list_of samples cimg) = Inr best"
      "best \<in> set (score_list_of samples cimg)"
      "\<forall>c\<in>set (score_list_of samples cimg). fst c \<le> fst best"
      "visual_recognise_char_img samples cimg = Inr (snd best)"
    by blast
  have "calculate_similarity (load cimg) (img_size cimg) sdata ssize = score_of (load cimg) sdata cw ch"
    using calculate_similarity_fits[of cw "fst ssize" ch "snd ssize" "load cimg" sdata] assms(2,3)
    by (simp add: cs)
  then have "- int (cw * ch) \<le> calculate_similarity (load cimg) (img_size cimg) sdata ssize"
    using score_of_ge[of cw ch "load cimg" sdata] by simp
  moreover have "int (cw * ch) < int 100"
    using assms(4) unfolding cs fst_conv snd_conv by (rule iffD2[OF of_nat_less_iff])
  ultimately have fit: "- 100 < calculate_similarity (load cimg) (img_size cimg) sdata ssize"
    by linarith
  have "(calculate_similarity (load cimg) (img_size cimg) sdata ssize, name)
      \<in> set (score_list_of samples cimg)"
    using assms(1) by (force simp: score_list_of_def)
  then have "calculate_similarity (load cimg) (img_size cimg) sdata ssize \<le> fst best"
    using b(3) by force
  then have hi: "- 100 < fst best"
    using fit by simp
  from b(2) obtain n sd ss where
    w: "(n, sd, ss) \<in> set samples" "best = (calculate_similarity (load cimg) (img_size cimg) sd ss, n)"
    unfolding score_list_of_def by auto
  have "\<not> (fst ss < fst (img_size cimg) \<or> snd ss < snd (img_size cimg))"
    using over[of ss sd] hi w(2) by auto
  then have fits: "fst (img_size cimg) \<le> fst ss" "snd (img_size cimg) \<le> snd ss"
    by simp_all
  have 2: "\<exists>(n, sd, ss)\<in>set samples.
      fst (img_size cimg) \<le> fst ss \<and> snd (img_size cimg) \<le> snd ss
      \<and> - 100 < calculate_similarity (load cimg) (img_size cimg) sd ss
      \<and> max_by_score (score_list_of samples cimg)
          = Inr (calculate_similarity (load cimg) (img_size cimg) sd ss, n)
      \<and> visual_recognise_char_img samples cimg = Inr n"
    using w(1) fits hi b(1) b(4) unfolding w(2)
    by (intro bexI[of _ "(n, sd, ss)"]) simp_all
  have 1: "\<forall>(n, sd, ss)\<in>set samples.
      fst ss < fst (img_size cimg) \<or> snd ss < snd (img_size cimg)
      \<longrightarrow> calculate_similarity (load cimg) (img_size cimg) sd ss = - 100"
    using over by auto
  show ?thesis
    using 1 2 by (rule conjI)
qed

theorem oversize_sample_loses_witness:
  "score_list_of (samples_of ex_files) ex_pair = [(- 100, ''1''), (2, ''7'')]
   \<and> (\<exists>(n, sd, ss)\<in>set (samples_of ex_files).
        fst (img_size ex_pair) \<le> fst ss \<and> snd (img_size ex_pair) \<le> snd ss
        \<and> - 100 < calculate_similarity (load ex_pair) (img_size ex_pair) sd ss
        \<and> max_by_score (score_list_of (samples_of ex_files) ex_pair)
            = Inr (calculate_similarity (load ex_pair) (img_size ex_pair) sd ss, n)
        \<and> visual_recognise_char_img (samples_of ex_files) ex_pair = Inr n)
   \<and> visual_recognise_char_img (samples_of ex_files) ex_pair = Inr ''7''"
proof -
  let ?s = "ex_image 5 1 (map (\<lambda>x. (x, 0)) [0, 1, 2, 3, 4])"
  have m: "(''7'', load ?s, img_size ?s) \<in> set (samples_of ex_files)"
    by (simp add: samples_of_def ex_files_def)
  have f: "fst (img_size ex_pair) \<le> fst (img_size ?s)" "snd (img_size ex_pair) \<le> snd (img_size ?s)"
    "fst (img_size ex_pair) * snd (img_size ex_pair) < 100"
    by code_simp+
  have l: "score_list_of (samples_of ex_files) ex_pair = [(- 100, ''1''), (2, ''7'')]"
    by code_simp
  have v: "visual_recognise_char_img (samples_of ex_files) ex_pair = Inr ''7''"
    by code_simp
  from oversize_sample_loses[OF m f] l v show ?thesis
    by blast
qed

end
